theory Spec2Isabelle
  imports Main "HOL-Library.Word"
begin

unbundle bit_operations_syntax

section \<open>The payload formatter (payload-formatter.js)\<close>

subsection \<open>Data\<close>

text \<open>
  \<open>input.bytes\<close> is an array of byte values, so every element is an 8-bit word.
  JavaScript numbers that the decoder computes from them are integers here; the two
  IEEE formats are kept as the bit pattern that \<open>DataView\<close> interprets, and the result
  of a binary64 division \<open>a / b\<close> of two integers is kept as the pair \<open>Quotient a b\<close>.
\<close>

type_synonym u8 = "8 word"

datatype js_value =
    Number int
  | Float32 "32 word"
  | Float64 "64 word"
  | Quotient int int
  | Bytes "u8 list"

record sensor =
  type :: nat
  index :: nat
  format :: nat
  value_js :: js_value

record slave =
  id_js :: nat
  sensors :: "sensor list"

record decoded =
  slaves :: "slave list"
  warnings :: "string list"
  errors :: "string list"

text \<open>The only exception the decoder could raise: a \<open>DataView\<close> read out of bounds.\<close>

datatype js_fault = RangeError

text \<open>How the sensor loop of lines 24-72 ends when it does not run to completion.\<close>

datatype sensor_exit = Early string | Thrown js_fault

subsection \<open>The format table (lines 3-11)\<close>

definition FORMAT_LEN :: "nat \<rightharpoonup> nat" where
  "FORMAT_LEN = [0 \<mapsto> 1, 1 \<mapsto> 2, 2 \<mapsto> 4, 3 \<mapsto> 8, 4 \<mapsto> 2, 5 \<mapsto> 2]"

subsection \<open>DataView\<close>

text \<open>Bytes in memory order to a number: least significant first, or most significant first.\<close>

fun le_nat :: "u8 list \<Rightarrow> nat" where
  "le_nat [] = 0"
| "le_nat (b # bs) = unat b + 256 * le_nat bs"

definition be_nat :: "u8 list \<Rightarrow> nat" where
  "be_nat bs = le_nat (rev bs)"

definition view_bytes :: "u8 list \<Rightarrow> nat \<Rightarrow> nat \<Rightarrow> bool \<Rightarrow> js_fault + nat" where
  "view_bytes buf byteOffset n littleEndian =
     (if byteOffset + n \<le> length buf
      then Inr ((if littleEndian then le_nat else be_nat) (take n (drop byteOffset buf)))
      else Inl RangeError)"

definition getUint8 :: "u8 list \<Rightarrow> nat \<Rightarrow> js_fault + int" where
  "getUint8 buf byteOffset = map_sum id int (view_bytes buf byteOffset 1 False)"

definition getUint16 :: "u8 list \<Rightarrow> nat \<Rightarrow> bool \<Rightarrow> js_fault + int" where
  "getUint16 buf byteOffset littleEndian = map_sum id int (view_bytes buf byteOffset 2 littleEndian)"

definition getInt16 :: "u8 list \<Rightarrow> nat \<Rightarrow> bool \<Rightarrow> js_fault + int" where
  "getInt16 buf byteOffset littleEndian =
     map_sum id (\<lambda>n. if 32768 \<le> n then int n - 65536 else int n)
       (view_bytes buf byteOffset 2 littleEndian)"

definition getFloat32 :: "u8 list \<Rightarrow> nat \<Rightarrow> bool \<Rightarrow> js_fault + 32 word" where
  "getFloat32 buf byteOffset littleEndian = map_sum id of_nat (view_bytes buf byteOffset 4 littleEndian)"

definition getFloat64 :: "u8 list \<Rightarrow> nat \<Rightarrow> bool \<Rightarrow> js_fault + 64 word" where
  "getFloat64 buf byteOffset littleEndian = map_sum id of_nat (view_bytes buf byteOffset 8 littleEndian)"

subsection \<open>decodeUplink\<close>

text \<open>The template literal \<open>${fmt}\<close>: a non-negative integer in decimal.\<close>

fun decimal :: "nat \<Rightarrow> string" where
  "decimal n = (if n < 10 then [''0123456789'' ! n] else decimal (n div 10) @ [''0123456789'' ! (n mod 10)])"

declare decimal.simps [simp del]

text \<open>The \<open>switch (fmt)\<close> of lines 46-69, on the view \<open>dv\<close> over \<open>raw\<close>.\<close>

definition switch_fmt :: "nat \<Rightarrow> u8 list \<Rightarrow> js_fault + js_value" where
  "switch_fmt fmt raw =
     (if fmt = 0 then map_sum id Number (getUint8 raw 0)
      else if fmt = 1 then map_sum id Number (getUint16 raw 0 True)
      else if fmt = 2 then map_sum id Float32 (getFloat32 raw 0 True)
      else if fmt = 3 then map_sum id Float64 (getFloat64 raw 0 True)
      else if fmt = 4 then map_sum id (\<lambda>n. Quotient n 100) (getInt16 raw 0 True)
      else if fmt = 5 then map_sum id (\<lambda>n. Quotient n 10) (getUint16 raw 0 True)
      else Inr (Bytes raw))"

text \<open>
  One pass through the body of the sensor loop (lines 25-71) with the cursor at \<open>pos\<close>:
  the sensor read and the new cursor, or the way the loop is left. Every \<open>bytes ! i\<close>
  is under the bounds check of line 25. \<open>!len\<close> holds for a missing entry and for 0.
\<close>

definition read_sensor :: "u8 list \<Rightarrow> nat \<Rightarrow> sensor_exit + (sensor \<times> nat)" where
  "read_sensor bytes pos =
     (if pos + 2 > length bytes then Inl (Early ''Truncated sensor header'')
      else
        let type = unat (bytes ! pos);
            hdr = unat (bytes ! (pos + 1));
            pos = pos + 2;
            fmt = drop_bit 5 hdr;
            index = hdr AND 0x1F
        in case FORMAT_LEN fmt of
             None \<Rightarrow> Inl (Early (''Unknown format '' @ decimal fmt))
           | Some len \<Rightarrow>
               if len = 0 then Inl (Early (''Unknown format '' @ decimal fmt))
               else if pos + len > length bytes then Inl (Early ''Truncated sensor value'')
               else
                 let raw = take len (drop pos bytes);
                     pos = pos + len
                 in (case switch_fmt fmt raw of
                       Inl f \<Rightarrow> Inl (Thrown f)
                     | Inr v \<Rightarrow>
                         Inr (\<lparr>type = type, index = index, format = fmt, value_js = v\<rparr>, pos)))"

text \<open>The loop \<open>for (let i = 0; i < sensorCount; i++)\<close>, by the number of passes left.\<close>

fun for_sensors :: "u8 list \<Rightarrow> nat \<Rightarrow> nat \<Rightarrow> sensor list \<Rightarrow> sensor_exit + (sensor list \<times> nat)" where
  "for_sensors bytes 0 pos sens = Inr (sens, pos)"
| "for_sensors bytes (Suc n) pos sens =
     (case read_sensor bytes pos of
        Inl e \<Rightarrow> Inl e
      | Inr (s, pos') \<Rightarrow> for_sensors bytes n pos' (sens @ [s]))"

lemma read_sensor_pos:
  "read_sensor bytes pos = Inr (s, pos') \<Longrightarrow> pos + 2 < pos' \<and> pos' \<le> length bytes"
  by (auto simp: read_sensor_def Let_def split: if_splits option.splits sum.splits)

lemma for_sensors_pos:
  "for_sensors bytes n pos acc = Inr (ss, pos') \<Longrightarrow> pos \<le> pos'"
proof (induction n arbitrary: pos acc)
  case 0
  then show ?case by simp
next
  case (Suc n)
  then show ?case
    by (fastforce split: sum.splits prod.splits dest: read_sensor_pos)
qed

text \<open>
  The loop \<open>while (pos + 3 <= bytes.length)\<close> of lines 18-75 and the tail of the
  function (lines 77-81). \<open>warnings\<close> and \<open>errors\<close> are still empty whenever one of
  them is pushed to, and the pushed message is then their only element.
\<close>

function while_slaves :: "u8 list \<Rightarrow> nat \<Rightarrow> slave list \<Rightarrow> js_fault + decoded" where
  "while_slaves bytes pos slvs =
     (if pos + 3 \<le> length bytes then
        let sid = push_bit 8 (unat (bytes ! pos)) OR unat (bytes ! (pos + 1));
            sensorCount = unat (bytes ! (pos + 2))
        in case for_sensors bytes sensorCount (pos + 3) [] of
             Inl (Early msg) \<Rightarrow> Inr \<lparr>slaves = slvs, warnings = [], errors = [msg]\<rparr>
           | Inl (Thrown f) \<Rightarrow> Inl f
           | Inr (sens, pos') \<Rightarrow>
               while_slaves bytes pos' (slvs @ [\<lparr>id_js = sid, sensors = sens\<rparr>])
      else
        Inr \<lparr>slaves = slvs,
             warnings = (if pos \<noteq> length bytes then [''Extra bytes at end of payload''] else []),
             errors = []\<rparr>)"
  by pat_completeness auto
termination
  by (relation "measure (\<lambda>(bytes, pos, slvs). length bytes - pos)")
     (auto dest: for_sensors_pos)

declare while_slaves.simps [simp del]

definition decodeUplink :: "u8 list \<Rightarrow> js_fault + decoded" where
  "decodeUplink bytes = while_slaves bytes 0 []"


section \<open>The wire format as the specification words it\<close>

text \<open>
  The specification's side of the format: \<open>k\<close> bytes of a number, least significant
  byte first. The decoder above never calls it; the theorems compare the two.
\<close>

fun le_bytes :: "nat \<Rightarrow> nat \<Rightarrow> u8 list" where
  "le_bytes 0 n = []"
| "le_bytes (Suc k) n = of_nat (n mod 256) # le_bytes k (n div 256)"

text \<open>
  A sensor value laid out for its format code, and the values each code can carry: an
  unsigned 8-bit and 16-bit number, the two IEEE bit patterns, a signed 16-bit number of
  hundredths and an unsigned 16-bit number of tenths; every multi-byte value least
  significant byte first.
\<close>

fun wf_value :: "nat \<Rightarrow> js_value \<Rightarrow> bool" where
  "wf_value fmt (Number n) = ((fmt = 0 \<and> 0 \<le> n \<and> n < 256) \<or> (fmt = 1 \<and> 0 \<le> n \<and> n < 65536))"
| "wf_value fmt (Float32 w) = (fmt = 2)"
| "wf_value fmt (Float64 w) = (fmt = 3)"
| "wf_value fmt (Quotient n d) =
     ((fmt = 4 \<and> d = 100 \<and> - 32768 \<le> n \<and> n < 32768) \<or> (fmt = 5 \<and> d = 10 \<and> 0 \<le> n \<and> n < 65536))"
| "wf_value fmt (Bytes bs) = False"

fun value_bytes :: "nat \<Rightarrow> js_value \<Rightarrow> u8 list" where
  "value_bytes fmt (Number n) = le_bytes (if fmt = 0 then 1 else 2) (nat n)"
| "value_bytes fmt (Float32 w) = le_bytes 4 (unat w)"
| "value_bytes fmt (Float64 w) = le_bytes 8 (unat w)"
| "value_bytes fmt (Quotient n d) = le_bytes 2 (nat (n mod 65536))"
| "value_bytes fmt (Bytes bs) = bs"

text \<open>
  A sensor is its type byte, the header byte with the format in the top three bits and
  the index in the low five, and the value bytes. A slave block is the 16-bit id, most
  significant byte first, the sensor count in one byte, and the sensors. A payload is
  its slave blocks, one after another.
\<close>

definition wf_sensor :: "sensor \<Rightarrow> bool" where
  "wf_sensor s = (type s < 256 \<and> index s < 32 \<and> format s \<le> 5 \<and> wf_value (format s) (value_js s))"

definition encode_sensor :: "sensor \<Rightarrow> u8 list" where
  "encode_sensor s =
     [of_nat (type s), of_nat (32 * format s + index s)] @ value_bytes (format s) (value_js s)"

definition wf_slave :: "slave \<Rightarrow> bool" where
  "wf_slave sl = (id_js sl < 65536 \<and> length (sensors sl) < 256 \<and> list_all wf_sensor (sensors sl))"

definition encode_slave :: "slave \<Rightarrow> u8 list" where
  "encode_slave sl =
     [of_nat (id_js sl div 256), of_nat (id_js sl mod 256), of_nat (length (sensors sl))]
     @ concat (map encode_sensor (sensors sl))"

definition encode_payload :: "slave list \<Rightarrow> u8 list" where
  "encode_payload ss = concat (map encode_slave ss)"

section \<open>The ingestor (main.go)\<close>

subsection \<open>Data\<close>

text \<open>
  A \<open>float64\<close> is only ever passed on, so it is kept as its bit pattern. A
  \<open>time.Time\<close> is an instant, counted from the zero time, and a location; \<open>IsZero\<close>
  looks at the instant only and \<open>UTC\<close> changes the location only. Nested anonymous
  structs are flattened: \<open>DeviceID\<close>, \<open>DevEUI\<close> and \<open>AppIDs_AppID\<close> are the fields of
  \<open>EndDeviceIDs\<close>, \<open>GatewayID\<close> and \<open>EUI\<close> those of \<open>GatewayIDs\<close>, and
  \<open>Bandwidth\<close>, \<open>SpreadingFactor\<close> and \<open>CodingRate\<close> those of \<open>DataRate.Lora\<close>.
\<close>

type_synonym float64 = "64 word"

record Time =
  instant :: int
  location :: string

definition IsZero :: "Time \<Rightarrow> bool" where
  "IsZero t = (instant t = 0)"

definition UTC :: "Time \<Rightarrow> Time" where
  "UTC t = t\<lparr>location := ''UTC''\<rparr>"

record Sensor =
  Format :: int
  Index :: int
  Type :: int
  Value :: float64

record Slave =
  ID :: int
  Sensors :: "Sensor list"

record DecodedPayload =
  Slaves :: "Slave list"

record LatLon =
  Latitude :: float64
  Longitude :: float64

record RxMetadata =
  GatewayID :: string
  EUI :: string
  RSSI :: "int option"
  SNR :: "float64 option"
  Time :: "Time option"
  Location :: "LatLon option"

record UplinkSettings =
  Bandwidth :: "int option"
  SpreadingFactor :: "int option"
  CodingRate :: string
  Frequency :: string

record UplinkMsg =
  FPort :: int
  DecodedPayload :: DecodedPayload
  RxMetadata :: "RxMetadata list"
  Settings :: UplinkSettings
  ReceivedAt :: Time

record DirectUp =
  DeviceID :: string
  DevEUI :: string
  AppIDs_AppID :: string
  UpCommon_ReceivedAt :: Time
  UplinkMessage :: UplinkMsg
  Simulated :: "bool option"

record Parsed =
  When :: Time
  StationEUI :: string
  StationDevID :: string
  AppID :: string
  Msg :: UplinkMsg

record Message =
  Topic :: string
  Qos :: nat
  Retained :: bool
  Payload :: string

text \<open>
  What the program leaves to its libraries and its surroundings: the JSON decoder
  (\<open>None\<close> when \<open>json.Unmarshal\<close> returns an error), \<open>strings.ToUpper\<close>, the clock
  read by \<open>time.Now\<close>, and the \<open>debug\<close> flag.
\<close>

record env =
  json_Unmarshal :: "string \<Rightarrow> DirectUp option"
  strings_ToUpper :: "string \<Rightarrow> string"
  time_Now :: Time
  debug :: bool

text \<open>The three SQL statements of lines 141-160 with the arguments \<open>Exec\<close> is given.\<close>

datatype stmt =
    upsertStationSQL string string "string option"
  | upsertGatewaySQL string string
  | insertMeasurementSQL Time string "string option" int int int float64 int "string option"
      "float64 option" "float64 option"

text \<open>
  \<open>pool.Exec\<close>: the store before, the statement, the store after and the error
  (\<open>None\<close> for \<open>nil\<close>). The store is a parameter of the program.
\<close>

type_synonym 'db exec = "'db \<Rightarrow> stmt \<Rightarrow> 'db \<times> string option"

text \<open>Every line the program logs.\<close>

datatype log_line =
    debug_topic string nat bool
  | debug_parsed string
  | debug_payload_head string
  | debug_payload string
  | parse_error string
  | station_upsert_error string
  | gateway_upsert_error string
  | debug_skip int int float64
  | insert_error string string int int int
  | ingested nat string

subsection \<open>Helpers\<close>

definition debugf :: "env \<Rightarrow> log_line \<Rightarrow> log_line list" where
  "debugf e l = (if debug e then [l] else [])"

definition nullIfEmpty :: "string \<Rightarrow> string option" where
  "nullIfEmpty s = (if s = [] then None else Some s)"

definition nullFloat :: "float64 option \<Rightarrow> float64 option" where
  "nullFloat f = f"

definition validSensorTypes :: "int \<rightharpoonup> unit" where
  "validSensorTypes = map_of
     [(1, ()), (2, ()), (3, ()), (4, ()), (5, ()), (6, ()), (7, ()), (8, ()),
      (9, ()), (10, ()), (11, ()), (12, ()), (13, ()), (14, ()), (15, ())]"

subsection \<open>parseUplink (lines 103-132)\<close>

text \<open>Lines 124-130: the payload, or its first 2048 bytes, in the debug log.\<close>

definition debug_dump :: "env \<Rightarrow> string \<Rightarrow> log_line list" where
  "debug_dump e b =
     (if debug e then
        (if length b > 2048 then [debug_payload_head (take 2048 b)] else [debug_payload b])
      else [])"

definition parseUplink :: "env \<Rightarrow> string \<Rightarrow> (string + Parsed) \<times> log_line list" where
  "parseUplink e b =
     (case json_Unmarshal e b of
        Some du \<Rightarrow>
          if DevEUI du \<noteq> [] then
            let when = ReceivedAt (UplinkMessage du);
                when = (if IsZero when then UpCommon_ReceivedAt du else when);
                when = (if IsZero when then UTC (time_Now e) else when)
            in (Inr \<lparr>When = UTC when,
                      StationEUI = strings_ToUpper e (DevEUI du),
                      StationDevID = DeviceID du,
                      AppID = AppIDs_AppID du,
                      Msg = UplinkMessage du\<rparr>,
                debugf e (debug_parsed (DevEUI du)))
          else (Inl ''unknown TTN uplink shape (expecting direct /up)'', debug_dump e b)
      | None \<Rightarrow> (Inl ''unknown TTN uplink shape (expecting direct /up)'', debug_dump e b))"

subsection \<open>handleMessage (lines 193-248)\<close>

text \<open>The arguments of the insert of lines 235-238.\<close>

definition measurement :: "Parsed \<Rightarrow> string \<Rightarrow> float64 option \<Rightarrow> float64 option \<Rightarrow> int \<Rightarrow> Sensor \<Rightarrow> stmt" where
  "measurement p gwID lat lon sID m =
     insertMeasurementSQL (When p) (StationEUI p) (nullIfEmpty (StationDevID p)) sID
       (Type m) (Index m) (Value m) (Format m) (nullIfEmpty gwID) (nullFloat lat) (nullFloat lon)"

text \<open>
  The loop \<open>for _, m := range s.Sensors\<close> of lines 230-244 over the store, \<open>count\<close>
  and the log.
\<close>

fun range_Sensors ::
  "env \<Rightarrow> 'db exec \<Rightarrow> Parsed \<Rightarrow> string \<Rightarrow> float64 option \<Rightarrow> float64 option \<Rightarrow> int \<Rightarrow> Sensor list
     \<Rightarrow> 'db \<times> nat \<times> log_line list \<Rightarrow> 'db \<times> nat \<times> log_line list" where
  "range_Sensors e Exec p gwID lat lon sID [] st = st"
| "range_Sensors e Exec p gwID lat lon sID (m # ms) (db, count, logs) =
     (if validSensorTypes (Type m) = None then
        range_Sensors e Exec p gwID lat lon sID ms
          (db, count, logs @ debugf e (debug_skip (Type m) (Index m) (Value m)))
      else
        case Exec db (measurement p gwID lat lon sID m) of
          (db', Some err) \<Rightarrow>
            range_Sensors e Exec p gwID lat lon sID ms
              (db', count, logs @ [insert_error err (StationEUI p) sID (Type m) (Index m)])
        | (db', None) \<Rightarrow>
            range_Sensors e Exec p gwID lat lon sID ms (db', count + 1, logs))"

text \<open>The loop \<open>for _, s := range p.Msg.DecodedPayload.Slaves\<close> of lines 229-245.\<close>

fun range_Slaves ::
  "env \<Rightarrow> 'db exec \<Rightarrow> Parsed \<Rightarrow> string \<Rightarrow> float64 option \<Rightarrow> float64 option \<Rightarrow> Slave list
     \<Rightarrow> 'db \<times> nat \<times> log_line list \<Rightarrow> 'db \<times> nat \<times> log_line list" where
  "range_Slaves e Exec p gwID lat lon [] st = st"
| "range_Slaves e Exec p gwID lat lon (s # ss) st =
     range_Slaves e Exec p gwID lat lon ss (range_Sensors e Exec p gwID lat lon (ID s) (Sensors s) st)"

text \<open>Lines 204-209: the station upsert.\<close>

definition station_step :: "'db exec \<Rightarrow> Parsed \<Rightarrow> 'db \<times> log_line list \<Rightarrow> 'db \<times> log_line list" where
  "station_step Exec p st =
     (case st of (db, logs) \<Rightarrow>
        if AppID p \<noteq> [] \<and> StationEUI p \<noteq> [] then
          case Exec db (upsertStationSQL (StationEUI p) (AppID p) (nullIfEmpty (StationDevID p))) of
            (db', Some err) \<Rightarrow> (db', logs @ [station_upsert_error err])
          | (db', None) \<Rightarrow> (db', logs)
        else (db, logs))"

text \<open>
  Lines 212-226: gateway and location, from the first entry of \<open>RxMetadata\<close> only.
  The result carries \<open>gwID\<close>, \<open>lat\<close> and \<open>lon\<close> for the inserts.
\<close>

definition gateway_step ::
  "'db exec \<Rightarrow> Parsed \<Rightarrow> 'db \<times> log_line list
     \<Rightarrow> ('db \<times> log_line list) \<times> string \<times> float64 option \<times> float64 option" where
  "gateway_step Exec p st =
     (case st of (db, logs) \<Rightarrow>
        (case RxMetadata (Msg p) of
          [] \<Rightarrow> ((db, logs), [], None, None)
        | rm # _ \<Rightarrow>
            let gwID = GatewayID rm;
                st' = (if gwID \<noteq> [] then
                         case Exec db (upsertGatewaySQL gwID (EUI rm)) of
                           (db', Some err) \<Rightarrow> (db', logs @ [gateway_upsert_error err])
                         | (db', None) \<Rightarrow> (db', logs)
                       else (db, logs))
            in (case Location rm of
                  None \<Rightarrow> (st', gwID, None, None)
                | Some l \<Rightarrow> (st', gwID, Some (Latitude l), Some (Longitude l)))))"

text \<open>Lines 204-247: what \<open>handleMessage\<close> does with a parsed message.\<close>

definition ingest :: "env \<Rightarrow> 'db exec \<Rightarrow> Parsed \<Rightarrow> 'db \<times> log_line list \<Rightarrow> 'db \<times> log_line list" where
  "ingest e Exec p st =
     (case gateway_step Exec p (station_step Exec p st) of
        ((db, logs), gwID, lat, lon) \<Rightarrow>
          case range_Slaves e Exec p gwID lat lon (Slaves (DecodedPayload (Msg p))) (db, 0, logs) of
            (db', count, logs') \<Rightarrow> (db', logs' @ [ingested count (StationEUI p)]))"

definition handleMessage :: "env \<Rightarrow> 'db exec \<Rightarrow> 'db \<Rightarrow> Message \<Rightarrow> 'db \<times> log_line list" where
  "handleMessage e Exec db msg =
     (let logs = (if debug e then [debug_topic (Topic msg) (Qos msg) (Retained msg)] else [])
      in case parseUplink e (Payload msg) of
           (Inl err, plogs) \<Rightarrow> (db, logs @ plogs @ [parse_error err])
         | (Inr p, plogs) \<Rightarrow> ingest e Exec p (db, logs @ plogs))"

section \<open>Stores\<close>

text \<open>
  A store that only records the statements it is given, in order, and fails exactly
  those that \<open>fails\<close> picks.
\<close>

definition recorder :: "(stmt \<Rightarrow> bool) \<Rightarrow> stmt list exec" where
  "recorder fails calls s = (calls @ [s], if fails s then Some ''failed'' else None)"

text \<open>
  Modelled from the spec: the storage engine behind \<open>pool.Exec\<close> is not part of the
  repository. The specification keeps a Station under its station EUI and a Gateway
  under its gateway id, last write wins, and a Measurement under the key (time, station
  EUI, slave id, sensor type, sensor index), where a duplicate key is silently ignored
  and never overwritten. That is the SQL text of lines 141-160 (\<open>ON CONFLICT ... DO
  UPDATE\<close> for the two upserts, \<open>ON CONFLICT DO NOTHING\<close> for the insert) and the
  constraint \<open>UNIQUE (time, station_eui, slave_id, sensor_type, sensor_index)\<close> of
  db/schema.sql. A row of \<open>measurements\<close> is kept as the insert that wrote it. A
  statement that \<open>rejects\<close> picks fails for another reason and changes nothing.
\<close>

fun unique_key :: "stmt \<Rightarrow> (int \<times> string \<times> int \<times> int \<times> int) option" where
  "unique_key (insertMeasurementSQL t eui devid sid ty idx v f gw lat lon) =
     Some (instant t, eui, sid, ty, idx)"
| "unique_key (upsertStationSQL eui app devid) = None"
| "unique_key (upsertGatewaySQL gid geui) = None"

record tables =
  stations :: "string \<rightharpoonup> string \<times> string option"
  gateways :: "string \<rightharpoonup> string"
  measurements :: "stmt list"

fun apply_stmt :: "tables \<Rightarrow> stmt \<Rightarrow> tables" where
  "apply_stmt db (upsertStationSQL eui app devid) =
     db\<lparr>stations := (stations db)(eui \<mapsto> (app, devid))\<rparr>"
| "apply_stmt db (upsertGatewaySQL gid geui) =
     db\<lparr>gateways := (gateways db)(gid \<mapsto> geui)\<rparr>"
| "apply_stmt db (insertMeasurementSQL t eui devid sid ty idx v f gw lat lon) =
     (if Some (instant t, eui, sid, ty, idx) \<in> set (map unique_key (measurements db)) then db
      else db\<lparr>measurements :=
             measurements db @ [insertMeasurementSQL t eui devid sid ty idx v f gw lat lon]\<rparr>)"

definition sql_store :: "(stmt \<Rightarrow> bool) \<Rightarrow> tables exec" where
  "sql_store rejects db s = (if rejects s then (db, Some ''rejected'') else (apply_stmt db s, None))"

section \<open>What the specification says is written\<close>

text \<open>
  The readings of a canonical record with the id of their slave, in order; the gateway
  and location of the first radio-metadata entry; the dimension upserts; and one insert
  for every reading whose type is in the fixed set from 1 to 15.
\<close>

definition slave_readings :: "Slave list \<Rightarrow> (int \<times> Sensor) list" where
  "slave_readings slvs = concat (map (\<lambda>s. map (Pair (ID s)) (Sensors s)) slvs)"

definition readings :: "Parsed \<Rightarrow> (int \<times> Sensor) list" where
  "readings p = slave_readings (Slaves (DecodedPayload (Msg p)))"

definition first_gateway :: "Parsed \<Rightarrow> string \<times> float64 option \<times> float64 option" where
  "first_gateway p =
     (case RxMetadata (Msg p) of
        [] \<Rightarrow> ([], None, None)
      | rm # _ \<Rightarrow> (GatewayID rm, map_option Latitude (Location rm), map_option Longitude (Location rm)))"

definition dimension_upserts :: "Parsed \<Rightarrow> stmt list" where
  "dimension_upserts p =
     (if AppID p \<noteq> [] \<and> StationEUI p \<noteq> []
      then [upsertStationSQL (StationEUI p) (AppID p) (if StationDevID p = [] then None else Some (StationDevID p))]
      else [])
     @ (case RxMetadata (Msg p) of
          [] \<Rightarrow> []
        | rm # _ \<Rightarrow> if GatewayID rm \<noteq> [] then [upsertGatewaySQL (GatewayID rm) (EUI rm)] else [])"

definition known_type :: "Sensor \<Rightarrow> bool" where
  "known_type m = (1 \<le> Type m \<and> Type m \<le> 15)"

definition inserts :: "Parsed \<Rightarrow> stmt list" where
  "inserts p =
     (case first_gateway p of
        (gwID, lat, lon) \<Rightarrow>
          map (\<lambda>(sID, m). measurement p gwID lat lon sID m)
            (filter (\<lambda>(sID, m). known_type m) (readings p)))"

section \<open>Test vectors\<close>

text \<open>
  Stand-ins for the libraries on the inputs of the examples: an upper-casing of ASCII
  letters, a JSON decoder with a fixed answer, a clock that reads 300.
\<close>

definition ascii_ToUpper :: "string \<Rightarrow> string" where
  "ascii_ToUpper =
     map (\<lambda>c. case map_of (zip ''abcdefghijklmnopqrstuvwxyz'' ''ABCDEFGHIJKLMNOPQRSTUVWXYZ'') c of
                None \<Rightarrow> c
              | Some u \<Rightarrow> u)"

definition example_env :: "DirectUp option \<Rightarrow> env" where
  "example_env answer =
     \<lparr>json_Unmarshal = (\<lambda>b. answer), strings_ToUpper = ascii_ToUpper,
      time_Now = \<lparr>instant = 300, location = ''Local''\<rparr>, debug = False\<rparr>"

definition example_sensor :: "int \<Rightarrow> Sensor" where
  "example_sensor t = \<lparr>Format = 1, Index = 0, Type = t, Value = 0\<rparr>"

definition example_up :: "int \<Rightarrow> int \<Rightarrow> string \<Rightarrow> int list \<Rightarrow> DirectUp" where
  "example_up t_msg t_env eui types =
     \<lparr>DeviceID = ''ws-1'', DevEUI = eui, AppIDs_AppID = ''openclimate'',
      UpCommon_ReceivedAt = \<lparr>instant = t_env, location = ''Local''\<rparr>,
      UplinkMessage =
        \<lparr>FPort = 1,
         DecodedPayload = \<lparr>Slaves = [\<lparr>ID = 4, Sensors = map example_sensor types\<rparr>]\<rparr>,
         RxMetadata = [\<lparr>GatewayID = ''gw-1'', EUI = ''AA'', RSSI = None, SNR = None,
                        Time = None, Location = None\<rparr>],
         Settings = \<lparr>Bandwidth = None, SpreadingFactor = None, CodingRate = [], Frequency = []\<rparr>,
         ReceivedAt = \<lparr>instant = t_msg, location = ''Local''\<rparr>\<rparr>,
      Simulated = None\<rparr>"

definition example_msg :: Message where
  "example_msg = \<lparr>Topic = ''up'', Qos = 0, Retained = False, Payload = ''{}''\<rparr>"

definition empty_tables :: tables where
  "empty_tables = \<lparr>stations = Map.empty, gateways = Map.empty, measurements = []\<rparr>"


section \<open>Bytes and numbers\<close>

lemma length_le_bytes [simp]: "length (le_bytes k n) = k"
  by (induction k arbitrary: n) simp_all

lemma unat_byte_of_nat: "unat (of_nat (n mod 256) :: u8) = n mod 256"
  by (simp add: unat_of_nat)

lemma unat_u8_less: "unat (b :: u8) < 256"
  using unsigned_less [of b, where 'a = nat] by simp

lemma le_nat_le_bytes: "le_nat (le_bytes k n) = n mod 256 ^ k"
proof (induction k arbitrary: n)
  case 0
  show ?case by simp
next
  case (Suc k)
  have "n mod 256 + 256 * (n div 256 mod 256 ^ k) = n mod (256 * 256 ^ k)"
    by (simp add: mod_mult2_eq)
  with Suc show ?case by (simp add: unat_byte_of_nat)
qed

lemma le_nat_less: "le_nat bs < 256 ^ length bs"
proof (induction bs)
  case Nil
  show ?case by simp
next
  case (Cons b bs)
  have "unat b < 256" by (rule unat_u8_less)
  with Cons show ?case by simp
qed

lemma le_bytes_le_nat: "le_bytes (length bs) (le_nat bs) = bs"
proof (induction bs)
  case Nil
  show ?case by simp
next
  case (Cons b bs)
  have "unat b < 256" by (rule unat_u8_less)
  then have "(unat b + 256 * le_nat bs) mod 256 = unat b"
    and "(unat b + 256 * le_nat bs) div 256 = le_nat bs"
    by simp_all
  with Cons show ?case by simp
qed

lemma s16_arith:
  fixes u :: int
  assumes "0 \<le> u" "u < 65536"
  shows "(u + 32768) mod 65536 - 32768 = (if 32768 \<le> u then u - 65536 else u)"
proof (cases "32768 \<le> u")
  case True
  have "u + 32768 = u - 32768 + 65536" by simp
  then have "(u + 32768) mod 65536 = (u - 32768 + 65536) mod 65536" by (rule arg_cong)
  also have "\<dots> = (u - 32768) mod 65536" by (rule mod_add_self2)
  also have "\<dots> = u - 32768" using True assms by simp
  finally show ?thesis using True by simp
next
  case False
  then have "(u + 32768) mod 65536 = u + 32768" using assms by simp
  then show ?thesis using False by simp
qed

text \<open>The two's complement reading of a 16-bit pattern, as \<open>getInt16\<close> computes it.\<close>

lemma sint16:
  "sint (N :: 16 word) = (if 32768 \<le> unat N then int (unat N) - 65536 else int (unat N))"
proof -
  have lt: "uint N < 65536" using uint_lt2p [of N] by simp
  have ge: "0 \<le> uint N" by simp
  have e: "int (unat N) = uint N" by simp
  have c: "(32768 \<le> unat N) = (32768 \<le> uint N)" using e by linarith
  have "sint N = (uint N + 32768) mod 65536 - 32768"
    using int_word_sint [of "uint N", where 'a = 16] by simp
  also have "\<dots> = (if 32768 \<le> uint N then uint N - 65536 else uint N)"
    using ge lt by (rule s16_arith)
  also have "\<dots> = (if 32768 \<le> unat N then int (unat N) - 65536 else int (unat N))"
    by (simp only: c e)
  finally show ?thesis .
qed

lemma view_le: "view_bytes (le_bytes k n) 0 k True = Inr (n mod 256 ^ k)"
  by (simp add: view_bytes_def le_nat_le_bytes)

lemma unat16: "unat (N :: 16 word) mod 65536 = unat N"
  using unsigned_less [of N, where 'a = nat] by simp

lemma unat32: "unat (N :: 32 word) mod 4294967296 = unat N"
  using unsigned_less [of N, where 'a = nat] by simp

lemma unat64: "unat (N :: 64 word) mod 18446744073709551616 = unat N"
  using unsigned_less [of N, where 'a = nat] by simp

lemma view_le16: "view_bytes (le_bytes 2 (unat (N :: 16 word))) 0 2 True = Inr (unat N)"
  using view_le [of 2 "unat N"] by (simp add: unat16)

lemma view_le32: "view_bytes (le_bytes 4 (unat (F :: 32 word))) 0 4 True = Inr (unat F)"
  using view_le [of 4 "unat F"] by (simp add: unat32)

lemma view_le64: "view_bytes (le_bytes 8 (unat (D :: 64 word))) 0 8 True = Inr (unat D)"
  using view_le [of 8 "unat D"] by (simp add: unat64)

lemma for_sensors_numeral:
  "for_sensors bytes (numeral k) pos sens =
     (case read_sensor bytes pos of
        Inl e \<Rightarrow> Inl e
      | Inr (s, pos') \<Rightarrow> for_sensors bytes (pred_numeral k) pos' (sens @ [s]))"
  by (simp add: numeral_eq_Suc)

lemmas decode_eval =
  decodeUplink_def while_slaves.simps for_sensors_numeral read_sensor_def FORMAT_LEN_def Let_def
  switch_fmt_def getUint8_def getUint16_def getInt16_def getFloat32_def getFloat64_def view_bytes_def be_nat_def

section \<open>The decoder on a longer input, and its exits\<close>

text \<open>
  A sensor, a sensor loop and a run of slave blocks that succeed on \<open>bytes\<close> read the
  same on \<open>bytes @ ext\<close>: every bounds check that passed still passes.
\<close>

lemma read_sensor_append:
  assumes "read_sensor bytes pos = Inr (s, pos')"
  shows "read_sensor (bytes @ ext) pos = Inr (s, pos')"
proof -
  from assms have b: "pos + 2 \<le> length bytes"
    by (auto simp: read_sensor_def split: if_splits)
  let ?fmt = "drop_bit 5 (unat (bytes ! (pos + 1)))"
  from assms b obtain len where len: "FORMAT_LEN ?fmt = Some len" "len \<noteq> 0" "pos + 2 + len \<le> length bytes"
    by (auto simp: read_sensor_def Let_def split: if_splits option.splits)
  have n: "(bytes @ ext) ! pos = bytes ! pos" "(bytes @ ext) ! Suc pos = bytes ! Suc pos"
    using b by (simp_all add: nth_append)
  have t: "take len (drop (Suc (Suc pos)) (bytes @ ext)) = take len (drop (Suc (Suc pos)) bytes)"
    using len(3) by simp
  show ?thesis
    using assms b len by (simp add: read_sensor_def Let_def n t)
qed

lemma for_sensors_append:
  "for_sensors bytes n pos acc = Inr (ss, pos') \<Longrightarrow> for_sensors (bytes @ ext) n pos acc = Inr (ss, pos')"
proof (induction n arbitrary: pos acc)
  case 0
  then show ?case by simp
next
  case (Suc n)
  from Suc.prems obtain s p where r: "read_sensor bytes pos = Inr (s, p)"
    and f: "for_sensors bytes n p (acc @ [s]) = Inr (ss, pos')"
    by (auto split: sum.splits prod.splits)
  from r have "read_sensor (bytes @ ext) pos = Inr (s, p)" by (rule read_sensor_append)
  moreover from f have "for_sensors (bytes @ ext) n p (acc @ [s]) = Inr (ss, pos')" by (rule Suc.IH)
  ultimately show ?case by simp
qed

lemma for_sensors_bound:
  "for_sensors bytes n pos acc = Inr (ss, pos') \<Longrightarrow> pos \<le> length bytes \<Longrightarrow> pos' \<le> length bytes"
proof (induction n arbitrary: pos acc)
  case 0
  then show ?case by simp
next
  case (Suc n)
  then show ?case
    by (fastforce split: sum.splits prod.splits dest: read_sensor_pos)
qed

lemma while_slaves_continue:
  assumes "while_slaves bytes pos slvs = Inr \<lparr>slaves = ss, warnings = [], errors = []\<rparr>"
  shows "while_slaves (bytes @ ext) pos slvs = while_slaves (bytes @ ext) (length bytes) ss"
  using assms
proof (induction "length bytes - pos" arbitrary: pos slvs rule: less_induct)
  case less
  show ?case
  proof (cases "pos + 3 \<le> length bytes")
    case False
    with less.prems have "pos = length bytes" "slvs = ss"
      by (auto simp: while_slaves.simps [of bytes pos] split: if_splits)
    then show ?thesis by simp
  next
    case True
    let ?sid = "push_bit 8 (unat (bytes ! pos)) OR unat (bytes ! (pos + 1))"
    let ?cnt = "unat (bytes ! (pos + 2))"
    from True less.prems obtain sens p where
      f: "for_sensors bytes ?cnt (pos + 3) [] = Inr (sens, p)" and
      w: "while_slaves bytes p (slvs @ [\<lparr>id_js = ?sid, sensors = sens\<rparr>]) = Inr \<lparr>slaves = ss, warnings = [], errors = []\<rparr>"
      by (auto simp: while_slaves.simps [of bytes pos] Let_def split: sum.splits prod.splits sensor_exit.splits)
    from f have p: "pos + 3 \<le> p" by (rule for_sensors_pos)
    with True have m: "length bytes - p < length bytes - pos" by simp
    have n: "(bytes @ ext) ! pos = bytes ! pos" "(bytes @ ext) ! Suc pos = bytes ! Suc pos"
      "(bytes @ ext) ! Suc (Suc pos) = bytes ! Suc (Suc pos)"
      using True by (simp_all add: nth_append)
    from f have f': "for_sensors (bytes @ ext) ?cnt (pos + 3) [] = Inr (sens, p)"
      by (rule for_sensors_append)
    have "while_slaves (bytes @ ext) pos slvs = while_slaves (bytes @ ext) p (slvs @ [\<lparr>id_js = ?sid, sensors = sens\<rparr>])"
      using True f' by (simp add: while_slaves.simps [of "bytes @ ext" pos] n)
    also have "\<dots> = while_slaves (bytes @ ext) (length bytes) ss"
      using m w by (rule less.hyps)
    finally show ?thesis .
  qed
qed

lemma FORMAT_LEN_Some:
  "FORMAT_LEN fmt = Some len \<Longrightarrow>
     fmt \<le> 5 \<and> len = (if fmt = 0 then 1 else if fmt = 2 then 4 else if fmt = 3 then 8 else 2)"
  by (auto simp: FORMAT_LEN_def split: if_splits)

lemma FORMAT_LEN_None: "FORMAT_LEN fmt = None \<longleftrightarrow> 5 < fmt"
  by (auto simp: FORMAT_LEN_def)

lemma switch_fmt_no_throw:
  assumes "FORMAT_LEN fmt = Some len" and "length raw = len"
  shows "\<exists>v. switch_fmt fmt raw = Inr v"
proof -
  from assms(1) have "fmt \<le> 5" and "len = (if fmt = 0 then 1 else if fmt = 2 then 4 else if fmt = 3 then 8 else 2)"
    by (auto dest: FORMAT_LEN_Some)
  with assms(2) show ?thesis
    by (auto simp: switch_fmt_def getUint8_def getUint16_def getInt16_def getFloat32_def
        getFloat64_def view_bytes_def)
qed

lemma read_sensor_no_throw: "read_sensor bytes pos \<noteq> Inl (Thrown f)"
proof (cases "pos + 2 \<le> length bytes")
  case False
  then show ?thesis by (simp add: read_sensor_def)
next
  case True
  let ?fmt = "drop_bit 5 (unat (bytes ! (pos + 1)))"
  show ?thesis
  proof (cases "FORMAT_LEN ?fmt")
    case None
    with True show ?thesis by (simp add: read_sensor_def Let_def)
  next
    case (Some len)
    show ?thesis
    proof (cases "len \<noteq> 0 \<and> pos + 2 + len \<le> length bytes")
      case False
      with True Some show ?thesis by (auto simp: read_sensor_def Let_def)
    next
      case ok: True
      then have "length (take len (drop (pos + 2) bytes)) = len" by auto
      with Some obtain v where "switch_fmt ?fmt (take len (drop (pos + 2) bytes)) = Inr v"
        using switch_fmt_no_throw by blast
      with True Some ok show ?thesis by (simp add: read_sensor_def Let_def)
    qed
  qed
qed

lemma for_sensors_no_throw: "for_sensors bytes n pos acc \<noteq> Inl (Thrown f)"
proof (induction n arbitrary: pos acc)
  case 0
  show ?case by simp
next
  case (Suc n)
  show ?case
  proof (cases "read_sensor bytes pos")
    case (Inl e)
    with read_sensor_no_throw [of bytes pos f] show ?thesis by simp
  next
    case (Inr sp)
    with Suc show ?thesis by (cases sp) simp
  qed
qed

lemma while_slaves_total: "\<exists>r. while_slaves bytes pos slvs = Inr r"
proof (induction "length bytes - pos" arbitrary: pos slvs rule: less_induct)
  case less
  show ?case
  proof (cases "pos + 3 \<le> length bytes")
    case False
    then show ?thesis by (simp add: while_slaves.simps [of bytes pos])
  next
    case True
    let ?sid = "push_bit 8 (unat (bytes ! pos)) OR unat (bytes ! (pos + 1))"
    let ?cnt = "unat (bytes ! (pos + 2))"
    show ?thesis
    proof (cases "for_sensors bytes ?cnt (pos + 3) []")
      case (Inl e)
      show ?thesis
      proof (cases e)
        case (Early msg)
        with True Inl show ?thesis by (simp add: while_slaves.simps [of bytes pos])
      next
        case (Thrown f)
        with Inl for_sensors_no_throw show ?thesis by blast
      qed
    next
      case (Inr sp)
      obtain sens p where sp: "sp = (sens, p)" by (cases sp)
      from Inr sp have "pos + 3 \<le> p" by (auto dest: for_sensors_pos)
      with True have "length bytes - p < length bytes - pos" by simp
      then obtain r where "while_slaves bytes p (slvs @ [\<lparr>id_js = ?sid, sensors = sens\<rparr>]) = Inr r"
        using less.hyps by blast
      with True Inr sp show ?thesis by (simp add: while_slaves.simps [of bytes pos])
    qed
  qed
qed

lemma for_sensors_fails_later:
  "for_sensors bytes k pos acc = Inr (sens, p) \<Longrightarrow> k < n \<Longrightarrow> read_sensor bytes p = Inl e
     \<Longrightarrow> for_sensors bytes n pos acc = Inl e"
proof (induction k arbitrary: n pos acc)
  case 0
  then obtain m where "n = Suc m" by (cases n) auto
  with 0 show ?case by simp
next
  case (Suc k)
  from Suc.prems(2) obtain m where n: "n = Suc m" and km: "k < m" by (cases n) auto
  from Suc.prems(1) obtain s q where r: "read_sensor bytes pos = Inr (s, q)"
    and f: "for_sensors bytes k q (acc @ [s]) = Inr (sens, p)"
    by (auto split: sum.splits prod.splits)
  from f km Suc.prems(3) have "for_sensors bytes m q (acc @ [s]) = Inl e" by (rule Suc.IH)
  with r n show ?case by simp
qed

lemma while_slaves_block_fails:
  assumes "pos + 3 \<le> length bytes"
    and "for_sensors bytes k (pos + 3) [] = Inr (sens, p)"
    and "k < unat (bytes ! (pos + 2))"
    and "read_sensor bytes p = Inl (Early msg)"
  shows "while_slaves bytes pos slvs = Inr \<lparr>slaves = slvs, warnings = [], errors = [msg]\<rparr>"
proof -
  from assms(2-4) have "for_sensors bytes (unat (bytes ! (pos + 2))) (pos + 3) [] = Inl (Early msg)"
    by (rule for_sensors_fails_later)
  with assms(1) show ?thesis by (simp add: while_slaves.simps [of bytes pos])
qed

lemma decodeUplink_block_fails:
  assumes "decodeUplink pre = Inr \<lparr>slaves = ss, warnings = [], errors = []\<rparr>"
    and "3 \<le> length rest"
    and "for_sensors (pre @ rest) k (length pre + 3) [] = Inr (sens, p)"
    and "k < unat (rest ! 2)"
    and "read_sensor (pre @ rest) p = Inl (Early msg)"
  shows "decodeUplink (pre @ rest) = Inr \<lparr>slaves = ss, warnings = [], errors = [msg]\<rparr>"
proof -
  from assms(1) have "while_slaves (pre @ rest) 0 [] = while_slaves (pre @ rest) (length pre) ss"
    unfolding decodeUplink_def by (rule while_slaves_continue)
  moreover have "(pre @ rest) ! (length pre + 2) = rest ! 2" by (simp add: nth_append)
  with assms(2-5) have "while_slaves (pre @ rest) (length pre) ss = Inr \<lparr>slaves = ss, warnings = [], errors = [msg]\<rparr>"
    by (intro while_slaves_block_fails [where k = k and sens = sens and p = p]) simp_all
  ultimately show ?thesis by (simp add: decodeUplink_def)
qed

lemma decimal_6_7: "decimal 6 = ''6''" "decimal 7 = ''7''"
  by (simp_all add: decimal.simps)

section \<open>The layout of a sensor and of a slave block\<close>

lemma and_31: "(n::nat) AND 31 = n mod 32"
proof -
  have "(31::nat) = mask 5" by (simp add: mask_eq_exp_minus_1)
  then have "n AND 31 = take_bit 5 n" by (simp add: take_bit_eq_mask)
  then show ?thesis by (simp add: take_bit_eq_mod)
qed

lemma drop_bit_5: "drop_bit 5 (n::nat) = n div 32"
  by (simp add: drop_bit_eq_div)

lemma push_or_byte:
  fixes a b :: nat
  assumes "b < 256"
  shows "push_bit 8 a OR b = 256 * a + b"
proof -
  have "\<not> bit (push_bit 8 a) n \<or> \<not> bit b n" for n
  proof (cases "8 \<le> n")
    case False
    then show ?thesis by (simp add: bit_push_bit_iff)
  next
    case True
    then have "(2::nat) ^ 8 \<le> 2 ^ n" by (intro power_increasing) simp_all
    with assms have "b < 2 ^ n" by simp
    then have "b div 2 ^ n = 0" by simp
    then show ?thesis by (simp add: bit_iff_odd)
  qed
  then have "push_bit 8 a + b = push_bit 8 a OR b" by (rule disjunctive_add)
  then show ?thesis by (simp add: push_bit_eq_mult)
qed


lemma le_bytes_numeral:
  "le_bytes (numeral k) n = of_nat (n mod 256) # le_bytes (pred_numeral k) (n div 256)"
  by (simp only: numeral_eq_Suc [of k] le_bytes.simps)

lemma unat_of_nat_u8: "k < 256 \<Longrightarrow> unat (of_nat k :: u8) = k"
  by (simp add: unat_of_nat)

lemma read_sensor_layout:
  assumes "FORMAT_LEN fmt = Some (length vb)" and "switch_fmt fmt vb = Inr v"
    and "drop_bit 5 (unat h) = fmt"
  shows "read_sensor (pre @ t # h # vb @ post) (length pre) =
           Inr (\<lparr>type = unat t, index = unat h AND 31, format = fmt, value_js = v\<rparr>,
                length pre + (2 + length vb))"
proof -
  from assms(1) have nz: "length vb \<noteq> 0" by (auto dest: FORMAT_LEN_Some split: if_splits)
  have raw: "take (length vb) (drop (Suc (Suc (length pre))) (pre @ t # h # vb @ post)) = vb"
    by simp
  show ?thesis
    unfolding read_sensor_def Let_def
    using nz assms by (simp add: nth_append raw)
qed

lemma while_slaves_layout:
  assumes "for_sensors (pre @ b0 # b1 # b2 # body @ post) (unat b2) (length pre + 3) [] =
             Inr (sens, length pre + (3 + length body))"
  shows "while_slaves (pre @ b0 # b1 # b2 # body @ post) (length pre) acc =
           while_slaves (pre @ b0 # b1 # b2 # body @ post) (length pre + (3 + length body))
             (acc @ [\<lparr>id_js = push_bit 8 (unat b0) OR unat b1, sensors = sens\<rparr>])"
  using assms
  by (subst while_slaves.simps) (simp add: nth_append Let_def)

lemma switch_fmt_rows:
  fixes N :: "16 word" and F :: "32 word" and D :: "64 word"
  assumes "(fmt, raw, v) \<in> set
       [(0, [b], Number (uint b)),
        (1, le_bytes 2 (unat N), Number (uint N)),
        (2, le_bytes 4 (unat F), Float32 F),
        (3, le_bytes 8 (unat D), Float64 D),
        (4, le_bytes 2 (unat N), Quotient (sint N) 100),
        (5, le_bytes 2 (unat N), Quotient (uint N) 10)]"
  shows "FORMAT_LEN fmt = Some (length raw) \<and> switch_fmt fmt raw = Inr v"
proof -
  have c0: "switch_fmt 0 [b] = Inr (Number (uint b))"
    by (simp add: switch_fmt_def getUint8_def view_bytes_def be_nat_def)
  have c1: "switch_fmt 1 (le_bytes 2 (unat N)) = Inr (Number (uint N))"
    by (simp add: switch_fmt_def getUint16_def view_le16)
  have c2: "switch_fmt 2 (le_bytes 4 (unat F)) = Inr (Float32 F)"
    by (simp add: switch_fmt_def getFloat32_def view_le32)
  have c3: "switch_fmt 3 (le_bytes 8 (unat D)) = Inr (Float64 D)"
    by (simp add: switch_fmt_def getFloat64_def view_le64)
  have c4: "switch_fmt 4 (le_bytes 2 (unat N)) = Inr (Quotient (sint N) 100)"
    by (simp add: switch_fmt_def getInt16_def view_le16 sint16)
  have c5: "switch_fmt 5 (le_bytes 2 (unat N)) = Inr (Quotient (uint N) 10)"
    by (simp add: switch_fmt_def getUint16_def view_le16)
  from assms consider
      "fmt = 0" "raw = [b]" "v = Number (uint b)"
    | "fmt = 1" "raw = le_bytes 2 (unat N)" "v = Number (uint N)"
    | "fmt = 2" "raw = le_bytes 4 (unat F)" "v = Float32 F"
    | "fmt = 3" "raw = le_bytes 8 (unat D)" "v = Float64 D"
    | "fmt = 4" "raw = le_bytes 2 (unat N)" "v = Quotient (sint N) 100"
    | "fmt = 5" "raw = le_bytes 2 (unat N)" "v = Quotient (uint N) 10"
    by auto
  then show ?thesis
  proof cases
    case 1 with c0 show ?thesis by (simp add: FORMAT_LEN_def)
  next
    case 2 with c1 show ?thesis by (simp add: FORMAT_LEN_def)
  next
    case 3 with c2 show ?thesis by (simp add: FORMAT_LEN_def)
  next
    case 4 with c3 show ?thesis by (simp add: FORMAT_LEN_def)
  next
    case 5 with c4 show ?thesis by (simp add: FORMAT_LEN_def)
  next
    case 6 with c5 show ?thesis by (simp add: FORMAT_LEN_def)
  qed
qed

lemma decodeUplink_one_sensor_block:
  assumes pre: "decodeUplink pre = Inr \<lparr>slaves = ss, warnings = [], errors = []\<rparr>"
    and rd: "read_sensor (pre @ hi # lo # 1 # body) (length pre + 3) = Inr (s, length pre + 3 + length body)"
  shows "decodeUplink (pre @ hi # lo # 1 # body) =
           Inr \<lparr>slaves = ss @ [\<lparr>id_js = 256 * unat hi + unat lo, sensors = [s]\<rparr>],
                warnings = [], errors = []\<rparr>"
proof -
  let ?bytes = "pre @ hi # lo # 1 # body"
  have lo: "unat lo < 256" by (rule unat_u8_less)
  from pre have w0: "while_slaves ?bytes 0 [] = while_slaves ?bytes (length pre) ss"
    unfolding decodeUplink_def by (rule while_slaves_continue)
  have "for_sensors (pre @ hi # lo # 1 # body @ []) (unat (1 :: u8)) (length pre + 3) [] =
      Inr ([s], length pre + (3 + length body))"
    using rd by (simp add: add.assoc)
  then have w1: "while_slaves (pre @ hi # lo # 1 # body @ []) (length pre) ss =
      while_slaves (pre @ hi # lo # 1 # body @ []) (length pre + (3 + length body))
        (ss @ [\<lparr>id_js = push_bit 8 (unat hi) OR unat lo, sensors = [s]\<rparr>])"
    by (rule while_slaves_layout)
  have sid: "push_bit 8 (unat hi) OR unat lo = 256 * unat hi + unat lo"
    using lo by (rule push_or_byte)
  have l: "length pre + (3 + length body) = length ?bytes"
    by simp
  from w1 have w2: "while_slaves ?bytes (length pre) ss =
      while_slaves ?bytes (length ?bytes) (ss @ [\<lparr>id_js = 256 * unat hi + unat lo, sensors = [s]\<rparr>])"
    by (simp only: append_Nil2 sid l)
  have w3: "while_slaves ?bytes (length ?bytes) (ss @ [\<lparr>id_js = 256 * unat hi + unat lo, sensors = [s]\<rparr>]) =
      Inr \<lparr>slaves = ss @ [\<lparr>id_js = 256 * unat hi + unat lo, sensors = [s]\<rparr>],
      warnings = [], errors = []\<rparr>"
    by (subst while_slaves.simps) simp
  show ?thesis unfolding decodeUplink_def by (simp only: w0 w2 w3)
qed

section \<open>Encoding and decoding are inverse\<close>

lemma le_bytes_1: "le_bytes 1 n = [of_nat (n mod 256)]"
  unfolding One_nat_def by simp

lemma int16_mod:
  fixes n :: int
  assumes "- 32768 \<le> n" "n < 32768"
  shows "(if 32768 \<le> nat (n mod 65536) then int (nat (n mod 65536)) - 65536 else int (nat (n mod 65536))) = n"
proof (cases "0 \<le> n")
  case True
  with assms have "n mod 65536 = n" by simp
  with True assms show ?thesis by simp
next
  case False
  have "n mod 65536 = (n + 65536) mod 65536" by simp
  also have "\<dots> = n + 65536" using assms False by (intro mod_pos_pos_trivial) simp_all
  finally have "n mod 65536 = n + 65536" .
  with False assms show ?thesis by simp
qed

lemma switch_fmt_value_bytes:
  assumes "wf_value fmt v"
  shows "FORMAT_LEN fmt = Some (length (value_bytes fmt v)) \<and> switch_fmt fmt (value_bytes fmt v) = Inr v"
proof (cases v)
  case (Number n)
  show ?thesis
  proof (cases "fmt = 0")
    case True
    with assms Number have n: "0 \<le> n" "n < 256" by auto
    then have "nat n mod 256 = nat n" by simp
    obtain b :: u8 where b: "b = of_nat (nat n mod 256)" by simp
    have "unat b = nat n"
      unfolding b using unat_byte_of_nat [of "nat n"] \<open>nat n mod 256 = nat n\<close> by simp
    then have "uint b = n" using n by (simp only: uint_nat)
    moreover have "switch_fmt 0 [b] = Inr (Number (uint b))"
      by (simp add: switch_fmt_def getUint8_def view_bytes_def be_nat_def)
    moreover have "value_bytes fmt v = [b]"
      unfolding b using True Number by (simp only: value_bytes.simps le_bytes_1 refl if_True)
    ultimately show ?thesis using True Number by (simp add: FORMAT_LEN_def)
  next
    case False
    with assms Number have f: "fmt = 1" and n: "0 \<le> n" "n < 65536" by auto
    have "view_bytes (le_bytes 2 (nat n)) 0 2 True = Inr (nat n)"
      using view_le [of 2 "nat n"] n by simp
    with f Number n show ?thesis
      by (simp add: FORMAT_LEN_def switch_fmt_def getUint16_def)
  qed
next
  case (Float32 w)
  with assms show ?thesis
    by (simp add: FORMAT_LEN_def switch_fmt_def getFloat32_def view_le32)
next
  case (Float64 w)
  with assms show ?thesis
    by (simp add: FORMAT_LEN_def switch_fmt_def getFloat64_def view_le64)
next
  case (Quotient n d)
  show ?thesis
  proof (cases "fmt = 4")
    case True
    with assms Quotient have d: "d = 100" and n: "- 32768 \<le> n" "n < 32768" by auto
    have "nat (n mod 65536) mod 65536 = nat (n mod 65536)"
      by (simp add: nat_less_iff)
    then have "view_bytes (le_bytes 2 (nat (n mod 65536))) 0 2 True = Inr (nat (n mod 65536))"
      using view_le [of 2 "nat (n mod 65536)"] by simp
    with True Quotient d int16_mod [OF n] show ?thesis
      by (simp add: FORMAT_LEN_def switch_fmt_def getInt16_def)
  next
    case False
    with assms Quotient have f: "fmt = 5" and d: "d = 10" and n: "0 \<le> n" "n < 65536" by auto
    then have m: "n mod 65536 = n" by simp
    have "view_bytes (le_bytes 2 (nat n)) 0 2 True = Inr (nat n)"
      using view_le [of 2 "nat n"] n by simp
    with f Quotient d n m show ?thesis
      by (simp add: FORMAT_LEN_def switch_fmt_def getUint16_def)
  qed
next
  case (Bytes bs)
  with assms show ?thesis by simp
qed

lemma read_sensor_encode:
  assumes "wf_sensor s"
  shows "read_sensor (pre @ encode_sensor s @ post) (length pre) =
           Inr (s, length pre + length (encode_sensor s))"
proof -
  let ?vb = "value_bytes (format s) (value_js s)"
  from assms have t: "type s < 256" and i: "index s < 32" and f: "format s \<le> 5"
    and v: "wf_value (format s) (value_js s)"
    by (simp_all add: wf_sensor_def)
  from v have len: "FORMAT_LEN (format s) = Some (length ?vb)"
    and sw: "switch_fmt (format s) ?vb = Inr (value_js s)"
    using switch_fmt_value_bytes by blast+
  obtain tb :: u8 where tb: "tb = of_nat (type s)" by simp
  obtain hb :: u8 where hb: "hb = of_nat (32 * format s + index s)" by simp
  from f i have h: "32 * format s + index s < 256" by simp
  have u0: "unat tb = type s" unfolding tb using t by (rule unat_of_nat_u8)
  have u1: "unat hb = 32 * format s + index s" unfolding hb using h by (rule unat_of_nat_u8)
  have fm: "drop_bit 5 (unat hb) = format s"
    using i by (simp add: u1 drop_bit_5)
  have ix: "unat hb AND 31 = index s"
    using i by (simp add: u1 and_31)
  have e: "encode_sensor s = tb # hb # ?vb"
    unfolding encode_sensor_def tb hb by simp
  have "read_sensor (pre @ tb # hb # ?vb @ post) (length pre) =
      Inr (\<lparr>type = unat tb, index = unat hb AND 31, format = format s, value_js = value_js s\<rparr>,
           length pre + (2 + length ?vb))"
    using len sw fm by (rule read_sensor_layout)
  then show ?thesis by (simp add: e u0 ix)
qed

lemma for_sensors_encode:
  assumes "list_all wf_sensor sens"
  shows "for_sensors (pre @ concat (map encode_sensor sens) @ post) (length sens) (length pre) acc =
           Inr (acc @ sens, length pre + length (concat (map encode_sensor sens)))"
  using assms
proof (induction sens arbitrary: pre acc)
  case Nil
  show ?case by simp
next
  case (Cons s sens)
  let ?rest = "concat (map encode_sensor sens) @ post"
  from Cons.prems have s: "wf_sensor s" and r: "list_all wf_sensor sens" by simp_all
  have "read_sensor (pre @ encode_sensor s @ ?rest) (length pre) =
      Inr (s, length pre + length (encode_sensor s))"
    using s by (rule read_sensor_encode)
  moreover have "for_sensors ((pre @ encode_sensor s) @ ?rest) (length sens) (length (pre @ encode_sensor s)) (acc @ [s]) =
      Inr ((acc @ [s]) @ sens, length (pre @ encode_sensor s) + length (concat (map encode_sensor sens)))"
    using r by (rule Cons.IH)
  ultimately show ?case by (simp add: add.assoc)
qed

lemma while_slaves_encode_step:
  assumes "wf_slave sl"
  shows "while_slaves (pre @ encode_slave sl @ post) (length pre) acc =
           while_slaves (pre @ encode_slave sl @ post) (length pre + length (encode_slave sl)) (acc @ [sl])"
proof -
  let ?body = "concat (map encode_sensor (sensors sl))"
  from assms have i: "id_js sl < 65536" and c: "length (sensors sl) < 256"
    and w: "list_all wf_sensor (sensors sl)"
    by (simp_all add: wf_slave_def)
  obtain b0 :: u8 where b0: "b0 = of_nat (id_js sl div 256)" by simp
  obtain b1 :: u8 where b1: "b1 = of_nat (id_js sl mod 256)" by simp
  obtain b2 :: u8 where b2: "b2 = of_nat (length (sensors sl))" by simp
  from i have d: "id_js sl div 256 < 256" by simp
  have u0: "unat b0 = id_js sl div 256" unfolding b0 using d by (rule unat_of_nat_u8)
  have u1: "unat b1 = id_js sl mod 256" unfolding b1 by (rule unat_of_nat_u8) simp
  have u2: "unat b2 = length (sensors sl)" unfolding b2 using c by (rule unat_of_nat_u8)
  have e: "encode_slave sl = b0 # b1 # b2 # ?body"
    unfolding encode_slave_def b0 b1 b2 by simp
  have sid: "push_bit 8 (unat b0) OR unat b1 = id_js sl"
    by (simp add: u0 u1 push_or_byte)
  have "for_sensors ((pre @ [b0, b1, b2]) @ ?body @ post) (length (sensors sl)) (length (pre @ [b0, b1, b2])) [] =
      Inr ([] @ sensors sl, length (pre @ [b0, b1, b2]) + length ?body)"
    using w by (rule for_sensors_encode)
  then have "for_sensors (pre @ b0 # b1 # b2 # ?body @ post) (unat b2) (length pre + 3) [] =
      Inr (sensors sl, length pre + (3 + length ?body))"
    by (simp add: u2 numeral_3_eq_3)
  then have "while_slaves (pre @ b0 # b1 # b2 # ?body @ post) (length pre) acc =
           while_slaves (pre @ b0 # b1 # b2 # ?body @ post) (length pre + (3 + length ?body))
             (acc @ [\<lparr>id_js = push_bit 8 (unat b0) OR unat b1, sensors = sensors sl\<rparr>])"
    by (rule while_slaves_layout)
  moreover have l: "length (encode_slave sl) = 3 + length ?body"
    by (simp add: e)
  moreover have r: "\<lparr>id_js = id_js sl, sensors = sensors sl\<rparr> = sl"
    by simp
  ultimately show ?thesis by (simp only: l e append_Cons sid r)
qed

lemma while_slaves_encode:
  assumes "list_all wf_slave ss"
  shows "while_slaves (pre @ encode_payload ss) (length pre) acc =
           Inr \<lparr>slaves = acc @ ss, warnings = [], errors = []\<rparr>"
  using assms
proof (induction ss arbitrary: pre acc)
  case Nil
  show ?case by (simp add: encode_payload_def while_slaves.simps [of pre "length pre"])
next
  case (Cons sl ss)
  from Cons.prems have s: "wf_slave sl" and r: "list_all wf_slave ss" by simp_all
  have "while_slaves (pre @ encode_slave sl @ encode_payload ss) (length pre) acc =
      while_slaves (pre @ encode_slave sl @ encode_payload ss) (length pre + length (encode_slave sl)) (acc @ [sl])"
    using s by (rule while_slaves_encode_step)
  also have "\<dots> = while_slaves ((pre @ encode_slave sl) @ encode_payload ss) (length (pre @ encode_slave sl)) (acc @ [sl])"
    by simp
  also have "\<dots> = Inr \<lparr>slaves = (acc @ [sl]) @ ss, warnings = [], errors = []\<rparr>"
    using r by (rule Cons.IH)
  finally show ?case by (simp add: encode_payload_def)
qed

lemma decode_encode:
  "list_all wf_slave ss \<Longrightarrow> decodeUplink (encode_payload ss) = Inr \<lparr>slaves = ss, warnings = [], errors = []\<rparr>"
  using while_slaves_encode [of ss "[]" "[]"] by (simp add: decodeUplink_def)

lemma view_whole: "length raw = k \<Longrightarrow> view_bytes raw 0 k True = Inr (le_nat raw)"
  by (simp add: view_bytes_def)

lemma le_bytes_raw: "length raw = k \<Longrightarrow> le_bytes k (le_nat raw) = raw"
  using le_bytes_le_nat [of raw] by simp

lemma le_nat_less_k: "length raw = k \<Longrightarrow> le_nat raw < 256 ^ k"
  using le_nat_less [of raw] by simp

lemma int16_back:
  fixes m :: nat
  assumes "m < 65536"
  shows "nat ((if 32768 \<le> m then int m - 65536 else int m) mod 65536) = m"
proof (cases "32768 \<le> m")
  case True
  have "(int m - 65536) mod 65536 = (int m - 65536 + 65536) mod 65536"
    by (simp only: mod_add_self2)
  also have "\<dots> = int m mod 65536" by simp
  also have "\<dots> = int m" using assms by simp
  finally show ?thesis using True by simp
next
  case False
  have "int m mod 65536 = int m" using assms by simp
  with False show ?thesis by simp
qed

lemma value_bytes_switch_fmt:
  assumes "FORMAT_LEN fmt = Some (length raw)" and "switch_fmt fmt raw = Inr v"
  shows "wf_value fmt v \<and> value_bytes fmt v = raw"
proof -
  from assms(1) have f: "fmt \<le> 5"
    and l: "length raw = (if fmt = 0 then 1 else if fmt = 2 then 4 else if fmt = 3 then 8 else 2)"
    by (auto dest: FORMAT_LEN_Some)
  from f consider "fmt = 0" | "fmt = 1" | "fmt = 2" | "fmt = 3" | "fmt = 4" | "fmt = 5"
    by linarith
  then show ?thesis
  proof cases
    case 1
    with l have "length raw = 1" by simp
    then obtain b where raw: "raw = [b]" by (cases raw) auto
    from assms(2) 1 raw have v: "v = Number (uint b)"
      by (simp add: switch_fmt_def getUint8_def view_bytes_def be_nat_def)
    have "uint b < 256" using uint_lt2p [of b] by simp
    moreover have "nat (uint b) = unat b"
      by (rule unat_eq_nat_uint [symmetric])
    moreover have "le_bytes 1 (unat b) = [b]"
      using le_bytes_raw [of "[b]" 1] by simp
    ultimately show ?thesis using 1 v raw by simp
  next
    case 2
    with l have k: "length raw = 2" by simp
    from assms(2) 2 have v: "v = Number (int (le_nat raw))"
      by (auto simp: switch_fmt_def getUint16_def view_whole [OF k])
    have "le_nat raw < 65536" using le_nat_less_k [OF k] by simp
    moreover have "le_bytes 2 (le_nat raw) = raw" using k by (rule le_bytes_raw)
    ultimately show ?thesis using 2 v by simp
  next
    case 3
    with l have k: "length raw = 4" by simp
    from assms(2) 3 have v: "v = Float32 (of_nat (le_nat raw))"
      by (auto simp: switch_fmt_def getFloat32_def view_whole [OF k])
    have "le_nat raw < 4294967296" using le_nat_less_k [OF k] by simp
    then have "unat (of_nat (le_nat raw) :: 32 word) = le_nat raw"
      by (simp add: unat_of_nat)
    moreover have "le_bytes 4 (le_nat raw) = raw" using k by (rule le_bytes_raw)
    ultimately show ?thesis using 3 v by simp
  next
    case 4
    with l have k: "length raw = 8" by simp
    from assms(2) 4 have v: "v = Float64 (of_nat (le_nat raw))"
      by (auto simp: switch_fmt_def getFloat64_def view_whole [OF k])
    have "le_nat raw < 18446744073709551616" using le_nat_less_k [OF k] by simp
    then have "unat (of_nat (le_nat raw) :: 64 word) = le_nat raw"
      by (simp add: unat_of_nat)
    moreover have "le_bytes 8 (le_nat raw) = raw" using k by (rule le_bytes_raw)
    ultimately show ?thesis using 4 v by simp
  next
    case 5
    with l have k: "length raw = 2" by simp
    let ?m = "le_nat raw"
    from assms(2) 5 have v: "v = Quotient (if 32768 \<le> ?m then int ?m - 65536 else int ?m) 100"
      by (auto simp: switch_fmt_def getInt16_def view_whole [OF k])
    have m: "?m < 65536" using le_nat_less_k [OF k] by simp
    then have "nat ((if 32768 \<le> ?m then int ?m - 65536 else int ?m) mod 65536) = ?m"
      by (rule int16_back)
    moreover have "le_bytes 2 ?m = raw" using k by (rule le_bytes_raw)
    moreover have "- 32768 \<le> (if 32768 \<le> ?m then int ?m - 65536 else int ?m)"
      and "(if 32768 \<le> ?m then int ?m - 65536 else int ?m) < 32768"
      using m by auto
    ultimately show ?thesis using 5 v by (simp only: wf_value.simps value_bytes.simps) simp
  next
    case 6
    with l have k: "length raw = 2" by simp
    let ?m = "le_nat raw"
    from assms(2) 6 have v: "v = Quotient (int ?m) 10"
      by (auto simp: switch_fmt_def getUint16_def view_whole [OF k])
    have m: "?m < 65536" using le_nat_less_k [OF k] by simp
    then have "int ?m mod 65536 = int ?m" by simp
    moreover have "le_bytes 2 ?m = raw" using k by (rule le_bytes_raw)
    ultimately show ?thesis using 6 v m by simp
  qed
qed


lemma drop_two:
  assumes "pos + 2 \<le> length bytes"
  shows "drop pos bytes = bytes ! pos # bytes ! (pos + 1) # drop (pos + 2) bytes"
proof -
  from assms have "pos < length bytes" and "Suc pos < length bytes" by simp_all
  then show ?thesis by (simp add: Cons_nth_drop_Suc)
qed

lemma u8_of_unat: "(of_nat (unat b) :: u8) = b"
  by simp

lemma hdr_rebuild: "(of_nat (32 * drop_bit 5 (unat h) + (unat h AND 31)) :: u8) = h"
proof -
  have "32 * drop_bit 5 (unat h) + (unat h AND 31) = unat h"
    by (simp only: drop_bit_5 and_31 mult_div_mod_eq)
  then show ?thesis by (simp only: u8_of_unat)
qed

lemma read_sensor_sound:
  assumes "read_sensor bytes pos = Inr (s, pos')"
  shows "wf_sensor s \<and> drop pos bytes = encode_sensor s @ drop pos' bytes"
proof -
  from assms have b: "pos + 2 \<le> length bytes"
    by (auto simp: read_sensor_def split: if_splits)
  let ?t = "bytes ! pos" and ?h = "bytes ! (pos + 1)"
  let ?fmt = "drop_bit 5 (unat ?h)"
  from assms b obtain len v where len: "FORMAT_LEN ?fmt = Some len" "len \<noteq> 0"
    "pos + 2 + len \<le> length bytes"
    and sw: "switch_fmt ?fmt (take len (drop (pos + 2) bytes)) = Inr v"
    and s: "s = \<lparr>type = unat ?t, index = unat ?h AND 31, format = ?fmt, value_js = v\<rparr>"
    and p: "pos' = pos + 2 + len"
    by (auto simp: read_sensor_def Let_def split: if_splits option.splits sum.splits)
  let ?raw = "take len (drop (pos + 2) bytes)"
  from len(3) have lr: "length ?raw = len" by auto
  with len(1) sw have v: "wf_value ?fmt v" and vb: "value_bytes ?fmt v = ?raw"
    using value_bytes_switch_fmt [of ?fmt ?raw v] by simp_all
  from len(1) have f: "?fmt \<le> 5" by (auto dest: FORMAT_LEN_Some)
  have i: "unat ?h AND 31 < 32" by (simp add: and_31)
  have t: "unat ?t < 256" by (rule unat_u8_less)
  from s v f i t have wf: "wf_sensor s" by (simp add: wf_sensor_def)
  have e: "encode_sensor s = ?t # ?h # ?raw"
    unfolding encode_sensor_def s by (simp only: sensor.simps u8_of_unat hdr_rebuild vb) simp
  have "drop pos bytes = ?t # ?h # drop (pos + 2) bytes" using b by (rule drop_two)
  also have "drop (pos + 2) bytes = ?raw @ drop len (drop (pos + 2) bytes)"
    by (rule append_take_drop_id [symmetric])
  also have "drop len (drop (pos + 2) bytes) = drop pos' bytes" by (simp add: p add.commute)
  finally have "drop pos bytes = encode_sensor s @ drop pos' bytes" by (simp add: e)
  with wf show ?thesis ..
qed

lemma for_sensors_sound:
  "for_sensors bytes n pos acc = Inr (ss, pos') \<Longrightarrow>
     \<exists>new. ss = acc @ new \<and> length new = n \<and> list_all wf_sensor new
        \<and> drop pos bytes = concat (map encode_sensor new) @ drop pos' bytes"
proof (induction n arbitrary: pos acc)
  case 0
  then show ?case by simp
next
  case (Suc n)
  from Suc.prems obtain s q where r: "read_sensor bytes pos = Inr (s, q)"
    and f: "for_sensors bytes n q (acc @ [s]) = Inr (ss, pos')"
    by (auto split: sum.splits prod.splits)
  from r have ws: "wf_sensor s" and ds: "drop pos bytes = encode_sensor s @ drop q bytes"
    using read_sensor_sound by blast+
  from Suc.IH [OF f] obtain new where n: "ss = (acc @ [s]) @ new" "length new = n"
    "list_all wf_sensor new" "drop q bytes = concat (map encode_sensor new) @ drop pos' bytes"
    by blast
  have "ss = acc @ (s # new)" using n(1) by simp
  moreover have "length (s # new) = Suc n" using n(2) by simp
  moreover have "list_all wf_sensor (s # new)" using ws n(3) by simp
  moreover have "drop pos bytes = concat (map encode_sensor (s # new)) @ drop pos' bytes"
    using ds n(4) by simp
  ultimately show ?case by blast
qed

lemma encode_payload_snoc: "encode_payload (ss @ [sl]) = encode_payload ss @ encode_slave sl"
  by (simp add: encode_payload_def)

lemma while_slaves_sound:
  assumes "while_slaves bytes pos acc = Inr r"
    and "list_all wf_slave acc"
    and "bytes = encode_payload acc @ drop pos bytes"
  shows "list_all wf_slave (slaves r) \<and> (\<exists>rest. bytes = encode_payload (slaves r) @ rest)"
  using assms
proof (induction "length bytes - pos" arbitrary: pos acc rule: less_induct)
  case less
  show ?case
  proof (cases "pos + 3 \<le> length bytes")
    case False
    with less.prems(1) have "slaves r = acc"
      by (auto simp: while_slaves.simps [of bytes pos])
    with less.prems(2,3) show ?thesis by auto
  next
    case True
    let ?b0 = "bytes ! pos" and ?b1 = "bytes ! (pos + 1)" and ?b2 = "bytes ! (pos + 2)"
    let ?sid = "push_bit 8 (unat ?b0) OR unat ?b1"
    show ?thesis
    proof (cases "for_sensors bytes (unat ?b2) (pos + 3) []")
      case (Inl e)
      with True less.prems(1) have "slaves r = acc"
        by (cases e) (auto simp: while_slaves.simps [of bytes pos])
      with less.prems(2,3) show ?thesis by auto
    next
      case (Inr sp)
      obtain sens p where sp: "sp = (sens, p)" by (cases sp)
      let ?sl = "\<lparr>id_js = ?sid, sensors = sens\<rparr>"
      from Inr sp have f: "for_sensors bytes (unat ?b2) (pos + 3) [] = Inr (sens, p)" by simp
      from f have pp: "pos + 3 \<le> p" by (rule for_sensors_pos)
      from for_sensors_sound [OF f] have ln: "length sens = unat ?b2"
        and ws: "list_all wf_sensor sens"
        and dr: "drop (pos + 3) bytes = concat (map encode_sensor sens) @ drop p bytes"
        by auto
      have b1: "unat ?b1 < 256" and b0: "unat ?b0 < 256" and b2: "unat ?b2 < 256"
        by (rule unat_u8_less)+
      from b1 have sid: "?sid = 256 * unat ?b0 + unat ?b1" by (rule push_or_byte)
      with b0 b1 have "?sid < 65536" by simp
      with ws ln b2 have wsl: "wf_slave ?sl" by (simp add: wf_slave_def)
      from b1 have dm: "(256 * unat ?b0 + unat ?b1) div 256 = unat ?b0"
        "(256 * unat ?b0 + unat ?b1) mod 256 = unat ?b1"
        by simp_all
      have "?sid div 256 = unat ?b0" and "?sid mod 256 = unat ?b1"
        unfolding sid by (rule dm)+
      then have e: "encode_slave ?sl = ?b0 # ?b1 # ?b2 # concat (map encode_sensor sens)"
        unfolding encode_slave_def by (simp only: slave.simps ln u8_of_unat) simp
      from True have "pos + 2 \<le> length bytes" and "pos + 2 < length bytes" by simp_all
      then have "drop pos bytes = ?b0 # ?b1 # ?b2 # drop (pos + 3) bytes"
        by (simp add: drop_two Cons_nth_drop_Suc [symmetric] numeral_3_eq_3)
      with dr e have "drop pos bytes = encode_slave ?sl @ drop p bytes" by simp
      with less.prems(3) have inv: "bytes = encode_payload (acc @ [?sl]) @ drop p bytes"
        by (simp add: encode_payload_snoc)
      from less.prems(2) wsl have wacc: "list_all wf_slave (acc @ [?sl])" by simp
      from True f less.prems(1) have w: "while_slaves bytes p (acc @ [?sl]) = Inr r"
        by (simp add: while_slaves.simps [of bytes pos])
      from True pp have m: "length bytes - p < length bytes - pos" by simp
      from m w wacc inv show ?thesis by (rule less.hyps)
    qed
  qed
qed

lemma decodeUplink_sound:
  "\<exists>r rest. decodeUplink bytes = Inr r \<and> list_all wf_slave (slaves r)
      \<and> bytes = encode_payload (slaves r) @ rest"
proof -
  obtain r where r: "while_slaves bytes 0 [] = Inr r" using while_slaves_total by blast
  moreover have "list_all wf_slave []" by simp
  moreover have "bytes = encode_payload [] @ drop 0 bytes" by (simp add: encode_payload_def)
  ultimately have "list_all wf_slave (slaves r) \<and> (\<exists>rest. bytes = encode_payload (slaves r) @ rest)"
    by (rule while_slaves_sound)
  with r show ?thesis by (auto simp: decodeUplink_def)
qed

section \<open>The claims about the decoder\<close>

text \<open>
  Claim C5. The decoder's value decoding follows the format table. The table is the list
  of rows (format code, value bytes, value): code 0 with one byte \<open>b\<close> gives its
  unsigned value; for every 16-bit pattern \<open>N\<close> stored least significant byte first,
  code 1 gives its unsigned reading, code 4 its two's complement reading divided by 100
  and code 5 its unsigned reading divided by 10; for every 32-bit pattern \<open>F\<close> and
  64-bit pattern \<open>D\<close> stored least significant byte first, code 2 gives the binary32
  float with the bits \<open>F\<close> and code 3 the binary64 float with the bits \<open>D\<close>. For
  every row and every header byte \<open>h\<close> whose top three bits are the row's code, the
  sensor loop reading the type byte, \<open>h\<close> and the row's bytes at any position of any
  input returns a sensor with the row's value and moves the cursor past exactly these
  bytes; and \<open>decodeUplink\<close>, on a run of completely decoded slave blocks followed by
  a block of that one sensor, returns the earlier slaves followed by a slave holding a
  sensor with the row's value, with no warning and no error.
\<close>

theorem decoder_value_by_format:
  fixes N :: "16 word" and F :: "32 word" and D :: "64 word"
  assumes "(fmt, raw, v) \<in> set
       [(0, [b], Number (uint b)),
        (1, le_bytes 2 (unat N), Number (uint N)),
        (2, le_bytes 4 (unat F), Float32 F),
        (3, le_bytes 8 (unat D), Float64 D),
        (4, le_bytes 2 (unat N), Quotient (sint N) 100),
        (5, le_bytes 2 (unat N), Quotient (uint N) 10)]"
    and "drop_bit 5 (unat h) = fmt"
    and "decodeUplink pre = Inr \<lparr>slaves = ss, warnings = [], errors = []\<rparr>"
  shows "read_sensor (before @ t # h # raw @ after) (length before) =
           Inr (\<lparr>type = unat t, index = unat h AND 0x1F, format = fmt, value_js = v\<rparr>,
                length before + 2 + length raw)
       \<and> decodeUplink (pre @ hi # lo # 1 # t # h # raw) =
           Inr \<lparr>slaves = ss @ [\<lparr>id_js = 256 * unat hi + unat lo, sensors =
                  [\<lparr>type = unat t, index = unat h AND 0x1F, format = fmt, value_js = v\<rparr>]\<rparr>],
                warnings = [], errors = []\<rparr>"
proof
  from assms(1) have len: "FORMAT_LEN fmt = Some (length raw)" and sw: "switch_fmt fmt raw = Inr v"
    using switch_fmt_rows by blast+
  have r: "read_sensor (bf @ t # h # raw @ af) (length bf) =
      Inr (\<lparr>type = unat t, index = unat h AND 31, format = fmt, value_js = v\<rparr>,
           length bf + (2 + length raw))" for bf af
    using len sw assms(2) by (rule read_sensor_layout)
  from r [of before "after"]
  show "read_sensor (before @ t # h # raw @ after) (length before) =
           Inr (\<lparr>type = unat t, index = unat h AND 0x1F, format = fmt, value_js = v\<rparr>,
                length before + 2 + length raw)"
    by (simp add: add.assoc)
  from r [of "pre @ [hi, lo, 1]" "[]"]
  have "read_sensor (pre @ hi # lo # 1 # t # h # raw) (length pre + 3) =
      Inr (\<lparr>type = unat t, index = unat h AND 31, format = fmt, value_js = v\<rparr>,
           length pre + 3 + length (t # h # raw))"
    by (simp add: numeral_3_eq_3)
  with assms(3)
  show "decodeUplink (pre @ hi # lo # 1 # t # h # raw) =
           Inr \<lparr>slaves = ss @ [\<lparr>id_js = 256 * unat hi + unat lo, sensors =
                  [\<lparr>type = unat t, index = unat h AND 0x1F, format = fmt, value_js = v\<rparr>]\<rparr>],
                warnings = [], errors = []\<rparr>"
    by (rule decodeUplink_one_sensor_block)
qed

theorem decoder_value_by_format_witness:
  "decodeUplink ([0x00, 0x09, 0x00] @ [0x00, 0x01, 0x01, 0x07, 0x05, 0xC8]) =
     Inr \<lparr>slaves = [\<lparr>id_js = 9, sensors = []\<rparr>,
                    \<lparr>id_js = 1, sensors = [\<lparr>type = 7, index = 5, format = 0, value_js = Number 200\<rparr>]\<rparr>],
          warnings = [], errors = []\<rparr>
   \<and> decodeUplink ([0x00, 0x09, 0x00] @ [0x00, 0x01, 0x01, 0x07, 0x25, 0x19, 0xFF]) =
     Inr \<lparr>slaves = [\<lparr>id_js = 9, sensors = []\<rparr>,
                    \<lparr>id_js = 1, sensors = [\<lparr>type = 7, index = 5, format = 1, value_js = Number 65305\<rparr>]\<rparr>],
          warnings = [], errors = []\<rparr>
   \<and> decodeUplink ([0x00, 0x09, 0x00] @ [0x00, 0x01, 0x01, 0x07, 0x45, 0x00, 0x00, 0x80, 0x3F]) =
     Inr \<lparr>slaves = [\<lparr>id_js = 9, sensors = []\<rparr>,
                    \<lparr>id_js = 1, sensors = [\<lparr>type = 7, index = 5, format = 2, value_js = Float32 0x3F800000\<rparr>]\<rparr>],
          warnings = [], errors = []\<rparr>
   \<and> decodeUplink ([0x00, 0x09, 0x00]
        @ [0x00, 0x01, 0x01, 0x07, 0x65, 0x00, 0x00, 0x00, 0x00, 0x00, 0x00, 0xF0, 0x3F]) =
     Inr \<lparr>slaves = [\<lparr>id_js = 9, sensors = []\<rparr>,
                    \<lparr>id_js = 1, sensors =
                      [\<lparr>type = 7, index = 5, format = 3, value_js = Float64 0x3FF0000000000000\<rparr>]\<rparr>],
          warnings = [], errors = []\<rparr>
   \<and> decodeUplink ([0x00, 0x09, 0x00] @ [0x00, 0x01, 0x01, 0x07, 0x85, 0x19, 0xFF]) =
     Inr \<lparr>slaves = [\<lparr>id_js = 9, sensors = []\<rparr>,
                    \<lparr>id_js = 1, sensors =
                      [\<lparr>type = 7, index = 5, format = 4, value_js = Quotient (- 231) 100\<rparr>]\<rparr>],
          warnings = [], errors = []\<rparr>
   \<and> decodeUplink ([0x00, 0x09, 0x00] @ [0x00, 0x01, 0x01, 0x07, 0xA5, 0x19, 0xFF]) =
     Inr \<lparr>slaves = [\<lparr>id_js = 9, sensors = []\<rparr>,
                    \<lparr>id_js = 1, sensors =
                      [\<lparr>type = 7, index = 5, format = 5, value_js = Quotient 65305 10\<rparr>]\<rparr>],
          warnings = [], errors = []\<rparr>"
proof -
  let ?pre = "[0x00, 0x09, 0x00] :: u8 list"
  let ?ss = "[\<lparr>id_js = 9, sensors = []\<rparr>]"
  have pre: "decodeUplink ?pre = Inr \<lparr>slaves = ?ss, warnings = [], errors = []\<rparr>"
    by (simp add: decode_eval)
  note rule = decoder_value_by_format [where b = "0xC8" and N = "0xFF19" and F = "0x3F800000"
      and D = "0x3FF0000000000000" and pre = ?pre and ss = ?ss and hi = 0 and lo = 1 and t = 7
      and before = "[]" and after = "[]", OF _ _ pre]
  have r0: "decodeUplink (?pre @ [0x00, 0x01, 0x01, 0x07, 0x05, 0xC8]) =
     Inr \<lparr>slaves = ?ss @ [\<lparr>id_js = 1, sensors = [\<lparr>type = 7, index = 5, format = 0, value_js = Number 200\<rparr>]\<rparr>],
          warnings = [], errors = []\<rparr>"
    using rule [where fmt = 0 and h = "0x05" and raw = "[0xC8]" and v = "Number 200"] by simp
  have r1: "decodeUplink (?pre @ [0x00, 0x01, 0x01, 0x07, 0x25, 0x19, 0xFF]) =
     Inr \<lparr>slaves = ?ss @ [\<lparr>id_js = 1, sensors = [\<lparr>type = 7, index = 5, format = 1, value_js = Number 65305\<rparr>]\<rparr>],
          warnings = [], errors = []\<rparr>"
    using rule [where fmt = 1 and h = "0x25" and raw = "[0x19, 0xFF]" and v = "Number 65305"]
    by (simp add: le_bytes_numeral)
  have r2: "decodeUplink (?pre @ [0x00, 0x01, 0x01, 0x07, 0x45, 0x00, 0x00, 0x80, 0x3F]) =
     Inr \<lparr>slaves = ?ss @ [\<lparr>id_js = 1, sensors = [\<lparr>type = 7, index = 5, format = 2, value_js = Float32 0x3F800000\<rparr>]\<rparr>],
          warnings = [], errors = []\<rparr>"
    using rule [where fmt = 2 and h = "0x45" and raw = "[0x00, 0x00, 0x80, 0x3F]" and v = "Float32 0x3F800000"]
    by (simp add: le_bytes_numeral)
  have r3: "decodeUplink (?pre @ [0x00, 0x01, 0x01, 0x07, 0x65, 0x00, 0x00, 0x00, 0x00, 0x00, 0x00, 0xF0, 0x3F]) =
     Inr \<lparr>slaves = ?ss @ [\<lparr>id_js = 1, sensors =
            [\<lparr>type = 7, index = 5, format = 3, value_js = Float64 0x3FF0000000000000\<rparr>]\<rparr>],
          warnings = [], errors = []\<rparr>"
    using rule [where fmt = 3 and h = "0x65" and raw = "[0x00, 0x00, 0x00, 0x00, 0x00, 0x00, 0xF0, 0x3F]"
        and v = "Float64 0x3FF0000000000000"]
    by (simp add: le_bytes_numeral)
  have r4: "decodeUplink (?pre @ [0x00, 0x01, 0x01, 0x07, 0x85, 0x19, 0xFF]) =
     Inr \<lparr>slaves = ?ss @ [\<lparr>id_js = 1, sensors =
            [\<lparr>type = 7, index = 5, format = 4, value_js = Quotient (- 231) 100\<rparr>]\<rparr>],
          warnings = [], errors = []\<rparr>"
    using rule [where fmt = 4 and h = "0x85" and raw = "[0x19, 0xFF]" and v = "Quotient (- 231) 100"]
    by (simp add: le_bytes_numeral)
  have r5: "decodeUplink (?pre @ [0x00, 0x01, 0x01, 0x07, 0xA5, 0x19, 0xFF]) =
     Inr \<lparr>slaves = ?ss @ [\<lparr>id_js = 1, sensors =
            [\<lparr>type = 7, index = 5, format = 5, value_js = Quotient 65305 10\<rparr>]\<rparr>],
          warnings = [], errors = []\<rparr>"
    using rule [where fmt = 5 and h = "0xA5" and raw = "[0x19, 0xFF]" and v = "Quotient 65305 10"]
    by (simp add: le_bytes_numeral)
  from r0 r1 r2 r3 r4 r5 show ?thesis by simp
qed

text \<open>
  Claim C9, as stated, fails. The six bytes \<open>00 01 01 01 20 19\<close> announce a sensor of
  format 1, which needs two value bytes, and only one is left: line 38 stops the decoder
  with \<open>Truncated sensor value\<close> and no slave is returned.
\<close>

theorem decodeUplink_six_bytes_truncated:
  "decodeUplink [0x00, 0x01, 0x01, 0x01, 0x20, 0x19] =
     Inr \<lparr>slaves = [], warnings = [], errors = [''Truncated sensor value'']\<rparr>"
  by (simp add: decode_eval)

text \<open>
  Claim C9, amended. With the second value byte \<open>b\<close> present, the seven bytes
  \<open>00 01 01 01 20 19 b\<close> decode to one slave with id 1 and one sensor of type 1,
  format 1 and index 0, whose value is the little-endian unsigned number
  \<open>0x19 + 256 * b\<close>, with no warning and no error.
\<close>

theorem decodeUplink_seven_bytes_example:
  "decodeUplink [0x00, 0x01, 0x01, 0x01, 0x20, 0x19, b] =
     Inr \<lparr>slaves = [\<lparr>id_js = 1, sensors =
                  [\<lparr>type = 1, index = 0, format = 1, value_js = Number (25 + 256 * uint b)\<rparr>]\<rparr>],
          warnings = [], errors = []\<rparr>"
  by (simp add: decode_eval)




text \<open>
  Claim C2, as stated, fails in its last part. In the seven bytes \<open>00 01 02 01 00 05 01\<close>
  the slave announces two sensors; the first (type 1, format 0, value 5) is read
  successfully, the header of the second is cut. The decoder returns the error and no
  slave at all: the reading already parsed is not in the result.
\<close>

theorem decodeUplink_drops_parsed_sensor:
  "read_sensor [0x00, 0x01, 0x02, 0x01, 0x00, 0x05, 0x01] 3 =
     Inr (\<lparr>type = 1, index = 0, format = 0, value_js = Number 5\<rparr>, 6)
   \<and> decodeUplink [0x00, 0x01, 0x02, 0x01, 0x00, 0x05, 0x01] =
     Inr \<lparr>slaves = [], warnings = [], errors = [''Truncated sensor header'']\<rparr>"
  by (simp add: decode_eval)

text \<open>
  Claim C2, amended. Let \<open>pre\<close> be a run of slave blocks that decode completely to the
  slaves \<open>ss\<close>, followed by \<open>rest\<close>, which starts with a slave header announcing more
  than \<open>k\<close> sensors, of which the first \<open>k\<close> are read successfully up to the cursor
  \<open>p\<close>. If fewer than two bytes are left at \<open>p\<close>, the result is the error
  \<open>Truncated sensor header\<close>; if the format code there is above 5, it is
  \<open>Unknown format\<close> followed by the code in decimal; if the format is in the table and
  fewer bytes than its width are left, it is \<open>Truncated sensor value\<close>. In each case
  that message is the only error, there is no warning, and the slaves returned are
  exactly \<open>ss\<close>, the blocks completed before the failing one; the \<open>k\<close> sensors already
  read in the failing block are not returned. No input makes the decoder throw.
\<close>

theorem decodeUplink_fail_fast:
  assumes "decodeUplink pre = Inr \<lparr>slaves = ss, warnings = [], errors = []\<rparr>"
    and "3 \<le> length rest"
    and "for_sensors (pre @ rest) k (length pre + 3) [] = Inr (sens, p)"
    and "k < unat (rest ! 2)"
  shows "(length (pre @ rest) < p + 2 \<longrightarrow>
            decodeUplink (pre @ rest) =
              Inr \<lparr>slaves = ss, warnings = [], errors = [''Truncated sensor header'']\<rparr>)
       \<and> (p + 2 \<le> length (pre @ rest) \<and> 5 < drop_bit 5 (unat ((pre @ rest) ! (p + 1))) \<longrightarrow>
            decodeUplink (pre @ rest) =
              Inr \<lparr>slaves = ss, warnings = [],
                   errors = [''Unknown format '' @ decimal (drop_bit 5 (unat ((pre @ rest) ! (p + 1))))]\<rparr>)
       \<and> (p + 2 \<le> length (pre @ rest)
            \<and> FORMAT_LEN (drop_bit 5 (unat ((pre @ rest) ! (p + 1)))) = Some len
            \<and> length (pre @ rest) < p + 2 + len \<longrightarrow>
            decodeUplink (pre @ rest) =
              Inr \<lparr>slaves = ss, warnings = [], errors = [''Truncated sensor value'']\<rparr>)
       \<and> (\<exists>r. decodeUplink (pre @ rest) = Inr r)"
proof (intro conjI impI)
  assume "length (pre @ rest) < p + 2"
  then have "read_sensor (pre @ rest) p = Inl (Early ''Truncated sensor header'')"
    by (simp add: read_sensor_def)
  with assms show "decodeUplink (pre @ rest) =
      Inr \<lparr>slaves = ss, warnings = [], errors = [''Truncated sensor header'']\<rparr>"
    by (rule decodeUplink_block_fails)
next
  let ?fmt = "drop_bit 5 (unat ((pre @ rest) ! (p + 1)))"
  assume "p + 2 \<le> length (pre @ rest) \<and> 5 < ?fmt"
  then have "read_sensor (pre @ rest) p = Inl (Early (''Unknown format '' @ decimal ?fmt))"
    using FORMAT_LEN_None [of ?fmt] by (simp add: read_sensor_def Let_def)
  with assms show "decodeUplink (pre @ rest) =
      Inr \<lparr>slaves = ss, warnings = [], errors = [''Unknown format '' @ decimal ?fmt]\<rparr>"
    by (rule decodeUplink_block_fails)
next
  let ?fmt = "drop_bit 5 (unat ((pre @ rest) ! (p + 1)))"
  assume a: "p + 2 \<le> length (pre @ rest) \<and> FORMAT_LEN ?fmt = Some len
    \<and> length (pre @ rest) < p + 2 + len"
  then have "len \<noteq> 0" by (auto dest: FORMAT_LEN_Some split: if_splits)
  with a have "read_sensor (pre @ rest) p = Inl (Early ''Truncated sensor value'')"
    by (simp add: read_sensor_def Let_def)
  with assms show "decodeUplink (pre @ rest) =
      Inr \<lparr>slaves = ss, warnings = [], errors = [''Truncated sensor value'']\<rparr>"
    by (rule decodeUplink_block_fails)
next
  show "\<exists>r. decodeUplink (pre @ rest) = Inr r"
    unfolding decodeUplink_def by (rule while_slaves_total)
qed

theorem decodeUplink_fail_fast_witness:
  "decodeUplink ([0x00, 0x01, 0x01, 0x01, 0x20, 0x19, 0x01] @ [0x00, 0x02, 0x02, 0x01, 0x00, 0x05, 0x01]) =
     Inr \<lparr>slaves = [\<lparr>id_js = 1, sensors =
                  [\<lparr>type = 1, index = 0, format = 1, value_js = Number 281\<rparr>]\<rparr>],
          warnings = [], errors = [''Truncated sensor header'']\<rparr>
   \<and> decodeUplink ([0x00, 0x01, 0x01, 0x01, 0x20, 0x19, 0x01] @ [0x00, 0x02, 0x01, 0x01, 0xC0, 0x09]) =
     Inr \<lparr>slaves = [\<lparr>id_js = 1, sensors =
                  [\<lparr>type = 1, index = 0, format = 1, value_js = Number 281\<rparr>]\<rparr>],
          warnings = [], errors = [''Unknown format 6'']\<rparr>
   \<and> decodeUplink ([0x00, 0x01, 0x01, 0x01, 0x20, 0x19, 0x01] @ [0x00, 0x02, 0x01, 0x01, 0x40, 0x09, 0x09]) =
     Inr \<lparr>slaves = [\<lparr>id_js = 1, sensors =
                  [\<lparr>type = 1, index = 0, format = 1, value_js = Number 281\<rparr>]\<rparr>],
          warnings = [], errors = [''Truncated sensor value'']\<rparr>"
proof -
  let ?pre = "[0x00, 0x01, 0x01, 0x01, 0x20, 0x19, 0x01] :: u8 list"
  let ?ss = "[\<lparr>id_js = 1, sensors = [\<lparr>type = 1, index = 0, format = 1, value_js = Number 281\<rparr>]\<rparr>]"
  have pre: "decodeUplink ?pre = Inr \<lparr>slaves = ?ss, warnings = [], errors = []\<rparr>"
    by (simp add: decode_eval)
  let ?r1 = "[0x00, 0x02, 0x02, 0x01, 0x00, 0x05, 0x01] :: u8 list"
  have k1: "for_sensors (?pre @ ?r1) (Suc 0) (length ?pre + 3) [] =
      Inr ([\<lparr>type = 1, index = 0, format = 0, value_js = Number 5\<rparr>], 13)"
    by (simp add: decode_eval)
  have h1: "decodeUplink (?pre @ ?r1) = Inr \<lparr>slaves = ?ss, warnings = [], errors = [''Truncated sensor header'']\<rparr>"
    using decodeUplink_fail_fast [OF pre _ k1, of 0] by simp
  let ?r2 = "[0x00, 0x02, 0x01, 0x01, 0xC0, 0x09] :: u8 list"
  have k2: "for_sensors (?pre @ ?r2) 0 (length ?pre + 3) [] = Inr ([], 10)"
    by simp
  have h2: "decodeUplink (?pre @ ?r2) = Inr \<lparr>slaves = ?ss, warnings = [], errors = [''Unknown format 6'']\<rparr>"
    using decodeUplink_fail_fast [OF pre _ k2, of 0] by (simp add: decimal_6_7)
  let ?r3 = "[0x00, 0x02, 0x01, 0x01, 0x40, 0x09, 0x09] :: u8 list"
  have k3: "for_sensors (?pre @ ?r3) 0 (length ?pre + 3) [] = Inr ([], 10)"
    by simp
  have h3: "decodeUplink (?pre @ ?r3) = Inr \<lparr>slaves = ?ss, warnings = [], errors = [''Truncated sensor value'']\<rparr>"
    using decodeUplink_fail_fast [OF pre _ k3, of 4] by (simp add: FORMAT_LEN_def)
  from h1 h2 h3 show ?thesis by blast
qed


text \<open>
  Claim C1. The decoder reads exactly the layout of the wire format: a slave block is a
  16-bit big-endian slave id, a one-byte sensor count, and per sensor a type byte, a
  header byte with \<open>format = header >> 5\<close> and \<open>index = header & 0x1F\<close>, and the
  value bytes, least significant first. Every list of well-formed slaves laid out this
  way decodes to exactly these slaves, with no warning and no error. And for every input
  byte sequence the decoder returns a result whose slaves are well formed and whose
  layout is a prefix of the input: each slave returned was read from the input in this
  layout, one block after the other.
\<close>

theorem decodeUplink_wire_format:
  "(list_all wf_slave ss \<longrightarrow>
      decodeUplink (encode_payload ss) = Inr \<lparr>slaves = ss, warnings = [], errors = []\<rparr>)
   \<and> (\<exists>r rest. decodeUplink bytes = Inr r \<and> list_all wf_slave (slaves r)
          \<and> bytes = encode_payload (slaves r) @ rest)"
  using decode_encode [of ss] decodeUplink_sound [of bytes] by blast

theorem decodeUplink_wire_format_witness:
  "encode_payload
     [\<lparr>id_js = 258, sensors =
         [\<lparr>type = 7, index = 5, format = 1, value_js = Number 65305\<rparr>,
          \<lparr>type = 3, index = 0, format = 4, value_js = Quotient (- 231) 100\<rparr>]\<rparr>,
      \<lparr>id_js = 9, sensors = []\<rparr>] =
     [0x01, 0x02, 0x02, 0x07, 0x25, 0x19, 0xFF, 0x03, 0x80, 0x19, 0xFF, 0x00, 0x09, 0x00]
   \<and> decodeUplink [0x01, 0x02, 0x02, 0x07, 0x25, 0x19, 0xFF, 0x03, 0x80, 0x19, 0xFF, 0x00, 0x09, 0x00] =
     Inr \<lparr>slaves =
            [\<lparr>id_js = 258, sensors =
                [\<lparr>type = 7, index = 5, format = 1, value_js = Number 65305\<rparr>,
                 \<lparr>type = 3, index = 0, format = 4, value_js = Quotient (- 231) 100\<rparr>]\<rparr>,
             \<lparr>id_js = 9, sensors = []\<rparr>],
          warnings = [], errors = []\<rparr>"
proof -
  let ?ss = "[\<lparr>id_js = 258, sensors =
         [\<lparr>type = 7, index = 5, format = 1, value_js = Number 65305\<rparr>,
          \<lparr>type = 3, index = 0, format = 4, value_js = Quotient (- 231) 100\<rparr>]\<rparr>,
      \<lparr>id_js = 9, sensors = []\<rparr>]"
  have e: "encode_payload ?ss =
      [0x01, 0x02, 0x02, 0x07, 0x25, 0x19, 0xFF, 0x03, 0x80, 0x19, 0xFF, 0x00, 0x09, 0x00]"
    by (simp add: encode_payload_def encode_slave_def encode_sensor_def le_bytes_numeral)
  have w: "list_all wf_slave ?ss"
    by (simp add: wf_slave_def wf_sensor_def)
  from decodeUplink_wire_format [of ?ss] w
  have "decodeUplink (encode_payload ?ss) = Inr \<lparr>slaves = ?ss, warnings = [], errors = []\<rparr>"
    by blast
  with e show ?thesis by simp
qed

section \<open>The loops\<close>

lemma validSensorTypes_iff: "validSensorTypes t = None \<longleftrightarrow> \<not> (1 \<le> t \<and> t \<le> 15)"
proof -
  have "(1 \<le> t \<and> t \<le> 15) \<longleftrightarrow>
      (t = 1 \<or> t = 2 \<or> t = 3 \<or> t = 4 \<or> t = 5 \<or> t = 6 \<or> t = 7 \<or> t = 8 \<or> t = 9 \<or> t = 10
       \<or> t = 11 \<or> t = 12 \<or> t = 13 \<or> t = 14 \<or> t = 15)"
    by presburger
  then show ?thesis by (simp add: validSensorTypes_def)
qed


text \<open>
  Both stores answer a statement with an error that depends on the statement only. For
  such a store the loops fold the store's step over the inserts of the known types, and
  count those that were not failed.
\<close>

lemma range_Sensors_fold:
  assumes E: "\<And>db s. Exec db s = (step db s, if fails s then Some err else None)"
  shows "\<exists>logs'. range_Sensors e Exec p gwID lat lon sID ms (db, count, logs) =
           (foldl step db (map (measurement p gwID lat lon sID) (filter known_type ms)),
            count + length (filter (\<lambda>s. \<not> fails s) (map (measurement p gwID lat lon sID) (filter known_type ms))),
            logs')"
proof (induction ms arbitrary: db count logs)
  case Nil
  show ?case by simp
next
  case (Cons m ms)
  show ?case
  proof (cases "known_type m")
    case False
    then have "validSensorTypes (Type m) = None"
      by (simp add: validSensorTypes_iff known_type_def)
    with False Cons.IH show ?thesis by simp
  next
    case True
    then have v: "validSensorTypes (Type m) \<noteq> None"
      by (simp add: validSensorTypes_iff known_type_def)
    show ?thesis
    proof (cases "fails (measurement p gwID lat lon sID m)")
      case f: True
      from Cons.IH [of "step db (measurement p gwID lat lon sID m)" count
          "logs @ [insert_error err (StationEUI p) sID (Type m) (Index m)]"]
      show ?thesis using True v f by (simp add: E)
    next
      case f: False
      from Cons.IH [of "step db (measurement p gwID lat lon sID m)" "count + 1" logs]
      show ?thesis using True v f by (simp add: E)
    qed
  qed
qed

lemma map_filter_Pair:
  "map (\<lambda>(sID, m). f sID m) (filter (\<lambda>(sID, m). P m) (map (Pair i) ms)) = map (f i) (filter P ms)"
  by (induction ms) simp_all

lemma range_Slaves_fold:
  assumes E: "\<And>db s. Exec db s = (step db s, if fails s then Some err else None)"
  shows "\<exists>logs'. range_Slaves e Exec p gwID lat lon slvs (db, count, logs) =
           (foldl step db (map (\<lambda>(sID, m). measurement p gwID lat lon sID m)
                             (filter (\<lambda>(sID, m). known_type m) (slave_readings slvs))),
            count + length (filter (\<lambda>s. \<not> fails s)
                             (map (\<lambda>(sID, m). measurement p gwID lat lon sID m)
                               (filter (\<lambda>(sID, m). known_type m) (slave_readings slvs)))),
            logs')"
proof (induction slvs arbitrary: db count logs)
  case Nil
  show ?case by (simp add: slave_readings_def)
next
  case (Cons s slvs)
  let ?M = "\<lambda>(sID, m). measurement p gwID lat lon sID m"
  let ?K = "\<lambda>(sID :: int, m). known_type m"
  let ?here = "map (measurement p gwID lat lon (ID s)) (filter known_type (Sensors s))"
  from range_Sensors_fold [of Exec step fails err e p gwID lat lon "ID s" "Sensors s" db count logs, OF E]
  obtain l1 where 1: "range_Sensors e Exec p gwID lat lon (ID s) (Sensors s) (db, count, logs) =
      (foldl step db ?here, count + length (filter (\<lambda>s. \<not> fails s) ?here), l1)"
    by blast
  from Cons.IH [of "foldl step db ?here" "count + length (filter (\<lambda>s. \<not> fails s) ?here)" l1]
  obtain l2 where 2: "range_Slaves e Exec p gwID lat lon slvs
        (foldl step db ?here, count + length (filter (\<lambda>s. \<not> fails s) ?here), l1) =
      (foldl step (foldl step db ?here) (map ?M (filter ?K (slave_readings slvs))),
       count + length (filter (\<lambda>s. \<not> fails s) ?here)
         + length (filter (\<lambda>s. \<not> fails s) (map ?M (filter ?K (slave_readings slvs)))),
       l2)"
    by blast
  have r: "map ?M (filter ?K (slave_readings (s # slvs))) = ?here @ map ?M (filter ?K (slave_readings slvs))"
    by (simp add: slave_readings_def map_filter_Pair)
  show ?case by (simp only: range_Slaves.simps 1 2 r foldl_append filter_append length_append add.assoc) blast
qed


lemma station_step_fold:
  assumes E: "\<And>db s. Exec db s = (step db s, if fails s then Some err else None)"
  shows "\<exists>logs'. station_step Exec p (db, logs) =
           (foldl step db
              (if AppID p \<noteq> [] \<and> StationEUI p \<noteq> []
               then [upsertStationSQL (StationEUI p) (AppID p)
                       (if StationDevID p = [] then None else Some (StationDevID p))]
               else []),
            logs')"
  by (simp add: station_step_def E nullIfEmpty_def)

lemma gateway_step_fold:
  assumes E: "\<And>db s. Exec db s = (step db s, if fails s then Some err else None)"
  shows "\<exists>logs'. gateway_step Exec p (db, logs) =
           ((foldl step db
               (case RxMetadata (Msg p) of
                  [] \<Rightarrow> []
                | rm # _ \<Rightarrow> if GatewayID rm \<noteq> [] then [upsertGatewaySQL (GatewayID rm) (EUI rm)] else []),
             logs'),
            first_gateway p)"
  by (simp add: gateway_step_def first_gateway_def E Let_def split: list.splits option.splits)

lemma ingest_fold:
  assumes E: "\<And>db s. Exec db s = (step db s, if fails s then Some err else None)"
  shows "\<exists>logs'. ingest e Exec p (db, logs) =
           (foldl step db (dimension_upserts p @ inserts p),
            logs' @ [ingested (length (filter (\<lambda>s. \<not> fails s) (inserts p))) (StationEUI p)])"
proof -
  let ?st = "if AppID p \<noteq> [] \<and> StationEUI p \<noteq> []
               then [upsertStationSQL (StationEUI p) (AppID p)
                       (if StationDevID p = [] then None else Some (StationDevID p))]
               else []"
  let ?gw = "case RxMetadata (Msg p) of
                  [] \<Rightarrow> []
                | rm # _ \<Rightarrow> if GatewayID rm \<noteq> [] then [upsertGatewaySQL (GatewayID rm) (EUI rm)] else []"
  obtain gwID lat lon where g: "first_gateway p = (gwID, lat, lon)"
    by (cases "first_gateway p") auto
  let ?ins = "map (\<lambda>(sID, m). measurement p gwID lat lon sID m)
                (filter (\<lambda>(sID, m). known_type m) (slave_readings (Slaves (DecodedPayload (Msg p)))))"
  from station_step_fold [of Exec step fails err p db logs, OF E]
  obtain l1 where 1: "station_step Exec p (db, logs) = (foldl step db ?st, l1)"
    by blast
  from gateway_step_fold [of Exec step fails err p "foldl step db ?st" l1, OF E]
  obtain l2 where 2: "gateway_step Exec p (foldl step db ?st, l1) =
      ((foldl step (foldl step db ?st) ?gw, l2), gwID, lat, lon)"
    using g by auto
  from range_Slaves_fold [of Exec step fails err e p gwID lat lon
      "Slaves (DecodedPayload (Msg p))" "foldl step (foldl step db ?st) ?gw" 0 l2, OF E]
  obtain l3 where 3: "range_Slaves e Exec p gwID lat lon (Slaves (DecodedPayload (Msg p)))
        (foldl step (foldl step db ?st) ?gw, 0, l2) =
      (foldl step (foldl step (foldl step db ?st) ?gw) ?ins,
       length (filter (\<lambda>s. \<not> fails s) ?ins), l3)"
    by auto
  have i: "inserts p = ?ins" by (simp add: inserts_def g readings_def)
  have d: "dimension_upserts p = ?st @ ?gw" by (simp add: dimension_upserts_def)
  have "ingest e Exec p (db, logs) =
      (foldl step (foldl step (foldl step db ?st) ?gw) ?ins,
       l3 @ [ingested (length (filter (\<lambda>s. \<not> fails s) ?ins)) (StationEUI p)])"
    by (simp only: ingest_def 1 2 3 prod.case)
  then show ?thesis by (simp only: i d foldl_append) blast
qed

lemma handleMessage_fold:
  assumes E: "\<And>db s. Exec db s = (step db s, if fails s then Some err else None)"
    and P: "parseUplink e (Payload msg) = (Inr p, plogs)"
  shows "\<exists>logs'. handleMessage e Exec db msg =
           (foldl step db (dimension_upserts p @ inserts p),
            logs' @ [ingested (length (filter (\<lambda>s. \<not> fails s) (inserts p))) (StationEUI p)])"
proof -
  have "handleMessage e Exec db msg =
      ingest e Exec p (db, (if debug e then [debug_topic (Topic msg) (Qos msg) (Retained msg)] else []) @ plogs)"
    by (simp add: handleMessage_def P Let_def)
  with ingest_fold [of Exec step fails err e p db, OF E] show ?thesis by simp
qed

lemma recorder_step: "recorder fails calls s = ((\<lambda>c s. c @ [s]) calls s, if fails s then Some ''failed'' else None)"
  by (simp add: recorder_def)


lemma sql_store_step:
  "sql_store rejects db s =
     ((\<lambda>db s. if rejects s then db else apply_stmt db s) db s, if rejects s then Some ''rejected'' else None)"
  by (simp add: sql_store_def)

section \<open>The tables under the statements\<close>

lemma apply_stmt_keys:
  "set (map unique_key (measurements db)) \<subseteq> set (map unique_key (measurements (apply_stmt db s)))"
  by (cases s) auto

lemma apply_stmt_has_key:
  "unique_key s \<noteq> None \<Longrightarrow> unique_key s \<in> set (map unique_key (measurements (apply_stmt db s)))"
  by (cases s) auto

lemma apply_stmt_same:
  "unique_key s = None \<or> unique_key s \<in> set (map unique_key (measurements db))
     \<Longrightarrow> measurements (apply_stmt db s) = measurements db"
  by (cases s) auto

lemma fold_keys_mono:
  "set (map unique_key (measurements db))
     \<subseteq> set (map unique_key (measurements (foldl (\<lambda>db s. if rejects s then db else apply_stmt db s) db ss)))"
proof (induction ss arbitrary: db)
  case Nil
  show ?case by simp
next
  case (Cons s ss)
  have "set (map unique_key (measurements db))
      \<subseteq> set (map unique_key (measurements (if rejects s then db else apply_stmt db s)))"
    using apply_stmt_keys [of db s] by simp
  also have "\<dots> \<subseteq> set (map unique_key (measurements
      (foldl (\<lambda>db s. if rejects s then db else apply_stmt db s) (if rejects s then db else apply_stmt db s) ss)))"
    by (rule Cons.IH)
  finally show ?case by simp
qed

lemma fold_has_key:
  assumes "s \<in> set ss" and "\<not> rejects s" and "unique_key s \<noteq> None"
  shows "unique_key s \<in> set (map unique_key (measurements
           (foldl (\<lambda>db s. if rejects s then db else apply_stmt db s) db ss)))"
  using assms(1)
proof (induction ss arbitrary: db)
  case Nil
  then show ?case by simp
next
  case (Cons a ss)
  let ?db' = "if rejects a then db else apply_stmt db a"
  show ?case
  proof (cases "s = a")
    case True
    with assms(2,3) have "unique_key s \<in> set (map unique_key (measurements ?db'))"
      using apply_stmt_has_key [of s db] by simp
    with fold_keys_mono [of ?db' rejects ss] show ?thesis by auto
  next
    case False
    with Cons.prems have "s \<in> set ss" by simp
    then show ?thesis using Cons.IH [of ?db'] by simp
  qed
qed

lemma fold_same:
  assumes "\<And>s. s \<in> set ss \<Longrightarrow> \<not> rejects s \<Longrightarrow>
             unique_key s = None \<or> unique_key s \<in> set (map unique_key (measurements db))"
  shows "measurements (foldl (\<lambda>db s. if rejects s then db else apply_stmt db s) db ss) = measurements db"
  using assms
proof (induction ss arbitrary: db)
  case Nil
  show ?case by simp
next
  case (Cons a ss)
  let ?db' = "if rejects a then db else apply_stmt db a"
  have same: "measurements ?db' = measurements db"
    using Cons.prems [of a] apply_stmt_same [of a db] by auto
  have "measurements (foldl (\<lambda>db s. if rejects s then db else apply_stmt db s) ?db' ss) = measurements ?db'"
  proof (rule Cons.IH)
    fix s
    assume "s \<in> set ss" and "\<not> rejects s"
    then show "unique_key s = None \<or> unique_key s \<in> set (map unique_key (measurements ?db'))"
      using Cons.prems [of s] same by simp
  qed
  with same show ?case by simp
qed

lemma fold_twice:
  "measurements (foldl (\<lambda>db s. if rejects s then db else apply_stmt db s)
       (foldl (\<lambda>db s. if rejects s then db else apply_stmt db s) db ss) ss)
   = measurements (foldl (\<lambda>db s. if rejects s then db else apply_stmt db s) db ss)"
proof (rule fold_same)
  fix s
  assume "s \<in> set ss" and "\<not> rejects s"
  then show "unique_key s = None \<or> unique_key s \<in> set (map unique_key (measurements
      (foldl (\<lambda>db s. if rejects s then db else apply_stmt db s) db ss)))"
    using fold_has_key [of s ss rejects db] by blast
qed


lemmas go_eval = handleMessage_def parseUplink_def ingest_def station_step_def gateway_step_def
  measurement_def debugf_def debug_dump_def nullIfEmpty_def nullFloat_def IsZero_def UTC_def
  example_env_def example_up_def example_msg_def example_sensor_def ascii_ToUpper_def
  validSensorTypes_def recorder_def sql_store_def empty_tables_def Let_def

lemmas spec_eval = dimension_upserts_def inserts_def readings_def slave_readings_def
  first_gateway_def known_type_def measurement_def nullIfEmpty_def nullFloat_def

section \<open>The claims about the ingestor\<close>

text \<open>
  Claim C3. \<open>parseUplink\<close> accepts a message exactly when \<open>json.Unmarshal\<close> decodes it
  into the envelope without error and the decoded \<open>end_device_ids.dev_eui\<close> is not the
  empty string. Every other message, a decoded document without that field included,
  gets the one error \<open>unknown TTN uplink shape\<close>. For a rejected message
  \<open>handleMessage\<close> leaves every store as it was and gives it no statement at all: no
  station, gateway or measurement write.
\<close>

theorem parseUplink_closed_recognizer:
  "((\<exists>p. fst (parseUplink e b) = Inr p) \<longleftrightarrow> (\<exists>du. json_Unmarshal e b = Some du \<and> DevEUI du \<noteq> []))
   \<and> ((\<nexists>p. fst (parseUplink e b) = Inr p) \<longrightarrow>
         fst (parseUplink e b) = Inl ''unknown TTN uplink shape (expecting direct /up)'')
   \<and> ((\<nexists>p. fst (parseUplink e (Payload msg)) = Inr p) \<longrightarrow>
         fst (handleMessage e Exec db msg) = db
         \<and> fst (handleMessage e (recorder fails) calls msg) = calls)"
proof (intro conjI impI)
  show "(\<exists>p. fst (parseUplink e b) = Inr p) \<longleftrightarrow> (\<exists>du. json_Unmarshal e b = Some du \<and> DevEUI du \<noteq> [])"
    by (auto simp: parseUplink_def Let_def split: option.splits)
next
  assume "\<nexists>p. fst (parseUplink e b) = Inr p"
  then show "fst (parseUplink e b) = Inl ''unknown TTN uplink shape (expecting direct /up)''"
    by (auto simp: parseUplink_def Let_def split: option.splits if_splits)
next
  assume r: "\<nexists>p. fst (parseUplink e (Payload msg)) = Inr p"
  then obtain err plogs where "parseUplink e (Payload msg) = (Inl err, plogs)"
    by (cases "parseUplink e (Payload msg)"; cases "fst (parseUplink e (Payload msg))") auto
  then show "fst (handleMessage e Exec db msg) = db"
    and "fst (handleMessage e (recorder fails) calls msg) = calls"
    by (simp_all add: handleMessage_def Let_def)
qed

theorem parseUplink_closed_recognizer_witness:
  "fst (parseUplink (example_env (Some (example_up 100 200 [] [1]))) ''{}'') =
     Inl ''unknown TTN uplink shape (expecting direct /up)''
   \<and> fst (handleMessage (example_env (Some (example_up 100 200 [] [1]))) (recorder (\<lambda>s. False)) []
          example_msg) = []
   \<and> fst (handleMessage (example_env None) (recorder (\<lambda>s. False)) [] example_msg) = []
   \<and> fst (handleMessage (example_env (Some (example_up 100 200 ''ab'' [1]))) (recorder (\<lambda>s. False)) []
          example_msg) \<noteq> []"
proof -
  let ?e = "example_env (Some (example_up 100 200 [] [1]))"
  have n1: "\<nexists>p. fst (parseUplink ?e ''{}'') = Inr p"
    by (simp add: go_eval)
  have n2: "\<nexists>p. fst (parseUplink (example_env None) (Payload example_msg)) = Inr p"
    by (simp add: go_eval)
  have p: "Payload example_msg = ''{}''" by (simp add: example_msg_def)
  from parseUplink_closed_recognizer [of ?e "''{}''" example_msg "recorder (\<lambda>s. False)" "[]" "\<lambda>s. False" "[]"] n1
  have "fst (parseUplink ?e ''{}'') = Inl ''unknown TTN uplink shape (expecting direct /up)''"
    and "fst (handleMessage ?e (recorder (\<lambda>s. False)) [] example_msg) = []"
    by (simp_all add: p)
  moreover from parseUplink_closed_recognizer [of "example_env None" "''{}''" example_msg
      "recorder (\<lambda>s. False)" "[]" "\<lambda>s. False" "[]"] n2
  have "fst (handleMessage (example_env None) (recorder (\<lambda>s. False)) [] example_msg) = []"
    by simp
  moreover have "fst (handleMessage (example_env (Some (example_up 100 200 ''ab'' [1])))
      (recorder (\<lambda>s. False)) [] example_msg) \<noteq> []"
    by (simp add: go_eval)
  ultimately show ?thesis by blast
qed

text \<open>
  Claim C6. For every accepted envelope the timestamp of the canonical record is the
  received time of the uplink message if that is not the zero time, otherwise the
  received time of the envelope if that is not the zero time, otherwise the current
  time; it is that instant, given in UTC. The station EUI of the canonical record is
  \<open>strings.ToUpper\<close> of the envelope's \<open>dev_eui\<close>.
\<close>

theorem parseUplink_timestamp_and_eui:
  assumes "json_Unmarshal e b = Some du" and "DevEUI du \<noteq> []"
  shows "\<exists>p. fst (parseUplink e b) = Inr p
     \<and> When p = UTC (if \<not> IsZero (ReceivedAt (UplinkMessage du)) then ReceivedAt (UplinkMessage du)
                    else if \<not> IsZero (UpCommon_ReceivedAt du) then UpCommon_ReceivedAt du
                    else time_Now e)
     \<and> instant (When p) =
         (if instant (ReceivedAt (UplinkMessage du)) \<noteq> 0 then instant (ReceivedAt (UplinkMessage du))
          else if instant (UpCommon_ReceivedAt du) \<noteq> 0 then instant (UpCommon_ReceivedAt du)
          else instant (time_Now e))
     \<and> StationEUI p = strings_ToUpper e (DevEUI du)"
  using assms by (simp add: parseUplink_def Let_def IsZero_def UTC_def)

theorem parseUplink_timestamp_and_eui_witness:
  "(\<exists>p. fst (parseUplink (example_env (Some (example_up 100 200 ''70b3d57eD0069153'' []))) ''{}'') = Inr p
      \<and> When p = \<lparr>instant = 100, location = ''UTC''\<rparr> \<and> StationEUI p = ''70B3D57ED0069153'')
   \<and> (\<exists>p. fst (parseUplink (example_env (Some (example_up 0 200 ''70b3d57eD0069153'' []))) ''{}'') = Inr p
      \<and> When p = \<lparr>instant = 200, location = ''UTC''\<rparr> \<and> StationEUI p = ''70B3D57ED0069153'')
   \<and> (\<exists>p. fst (parseUplink (example_env (Some (example_up 0 0 ''70b3d57eD0069153'' []))) ''{}'') = Inr p
      \<and> When p = \<lparr>instant = 300, location = ''UTC''\<rparr> \<and> StationEUI p = ''70B3D57ED0069153'')"
proof -
  have u: "ascii_ToUpper ''70b3d57eD0069153'' = ''70B3D57ED0069153''"
    by (simp add: ascii_ToUpper_def)
  have a: "json_Unmarshal (example_env (Some du)) ''{}'' = Some du" for du
    by (simp add: example_env_def)
  have d: "DevEUI (example_up m n ''70b3d57eD0069153'' []) \<noteq> []" for m n
    by (simp add: example_up_def)
  have w: "\<exists>p. fst (parseUplink (example_env (Some (example_up m n ''70b3d57eD0069153'' []))) ''{}'') = Inr p
      \<and> When p = \<lparr>instant = (if m \<noteq> 0 then m else if n \<noteq> 0 then n else 300), location = ''UTC''\<rparr>
      \<and> StationEUI p = ''70B3D57ED0069153''" for m n
  proof -
    let ?e = "example_env (Some (example_up m n ''70b3d57eD0069153'' []))"
    let ?du = "example_up m n ''70b3d57eD0069153'' []"
    from parseUplink_timestamp_and_eui [OF a d, of m n]
    obtain p where p: "fst (parseUplink ?e ''{}'') = Inr p"
      and t: "When p = UTC (if \<not> IsZero (ReceivedAt (UplinkMessage ?du)) then ReceivedAt (UplinkMessage ?du)
                    else if \<not> IsZero (UpCommon_ReceivedAt ?du) then UpCommon_ReceivedAt ?du
                    else time_Now ?e)"
      and s: "StationEUI p = strings_ToUpper ?e (DevEUI ?du)"
      by blast
    from t have "When p = \<lparr>instant = (if m \<noteq> 0 then m else if n \<noteq> 0 then n else 300), location = ''UTC''\<rparr>"
      by (simp add: example_env_def example_up_def IsZero_def UTC_def)
    moreover from s have "StationEUI p = ''70B3D57ED0069153''"
      by (simp add: example_env_def example_up_def u)
    ultimately show ?thesis using p by blast
  qed
  from w [of 100 200]
  have 1: "\<exists>p. fst (parseUplink (example_env (Some (example_up 100 200 ''70b3d57eD0069153'' []))) ''{}'') = Inr p
      \<and> When p = \<lparr>instant = 100, location = ''UTC''\<rparr> \<and> StationEUI p = ''70B3D57ED0069153''"
    by simp
  from w [of 0 200]
  have 2: "\<exists>p. fst (parseUplink (example_env (Some (example_up 0 200 ''70b3d57eD0069153'' []))) ''{}'') = Inr p
      \<and> When p = \<lparr>instant = 200, location = ''UTC''\<rparr> \<and> StationEUI p = ''70B3D57ED0069153''"
    by simp
  from w [of 0 0]
  have 3: "\<exists>p. fst (parseUplink (example_env (Some (example_up 0 0 ''70b3d57eD0069153'' []))) ''{}'') = Inr p
      \<and> When p = \<lparr>instant = 300, location = ''UTC''\<rparr> \<and> StationEUI p = ''70B3D57ED0069153''"
    by simp
  from 1 2 3 show ?thesis by blast
qed





text \<open>
  Claim C8, as stated, fails: the summary does not hold the count of rows attempted.
  Against a store that fails every insert, a record with one reading of a known type
  (one row attempted) and a record with no reading (none attempted) end with the same
  summary line, \<open>ingested 0\<close> measurements from the same station.
\<close>

theorem summary_hides_attempts:
  "last (snd (handleMessage (example_env (Some (example_up 100 200 ''ab'' [1])))
          (recorder (\<lambda>s. unique_key s \<noteq> None)) [] example_msg)) = ingested 0 ''AB''
   \<and> last (snd (handleMessage (example_env (Some (example_up 100 200 ''ab'' [])))
          (recorder (\<lambda>s. unique_key s \<noteq> None)) [] example_msg)) = ingested 0 ''AB''
   \<and> length (filter (\<lambda>s. unique_key s \<noteq> None)
        (fst (handleMessage (example_env (Some (example_up 100 200 ''ab'' [1])))
          (recorder (\<lambda>s. unique_key s \<noteq> None)) [] example_msg))) = 1
   \<and> length (filter (\<lambda>s. unique_key s \<noteq> None)
        (fst (handleMessage (example_env (Some (example_up 100 200 ''ab'' [])))
          (recorder (\<lambda>s. unique_key s \<noteq> None)) [] example_msg))) = 0"
  by (simp add: go_eval)

text \<open>
  Claim C8, amended. For every accepted message the last line \<open>handleMessage\<close> logs is
  the summary: the number of measurement inserts for which the store returned no error,
  and the station EUI of the canonical record. Nothing else is reported; the number of
  rows attempted is not part of it. This holds whichever statements the store fails.
\<close>

theorem handleMessage_reports_count_and_station:
  assumes "parseUplink e (Payload msg) = (Inr p, plogs)"
  shows "\<exists>logs'. snd (handleMessage e (recorder fails) calls msg) =
           logs' @ [ingested (length (filter (\<lambda>s. \<not> fails s) (inserts p))) (StationEUI p)]"
  using handleMessage_fold [of "recorder fails" "\<lambda>c s. c @ [s]" fails "''failed''" e msg p plogs calls,
      OF recorder_step assms]
  by auto

theorem handleMessage_reports_count_and_station_witness:
  "\<exists>logs'. snd (handleMessage (example_env (Some (example_up 100 200 ''ab'' [1, 16, 0, 15])))
        (recorder (\<lambda>s. False)) [] example_msg) = logs' @ [ingested 2 ''AB'']"
proof -
  let ?e = "example_env (Some (example_up 100 200 ''ab'' [1, 16, 0, 15]))"
  let ?p = "\<lparr>When = \<lparr>instant = 100, location = ''UTC''\<rparr>, StationEUI = ''AB'', StationDevID = ''ws-1'',
      AppID = ''openclimate'', Msg = UplinkMessage (example_up 100 200 ''ab'' [1, 16, 0, 15])\<rparr>"
  have P: "parseUplink ?e (Payload example_msg) = (Inr ?p, [])"
    by (simp add: go_eval)
  have n: "length (filter (\<lambda>s. \<not> False) (inserts ?p)) = 2"
    by (simp add: spec_eval example_up_def example_sensor_def)
  from handleMessage_reports_count_and_station [OF P, of "\<lambda>s. False" "[]"]
  show ?thesis by (simp only: n Parsed.simps)
qed

text \<open>
  Claim C10. Under the tables as the SQL statements keep them, a measurement insert
  whose key is already in \<open>measurements\<close> changes nothing and returns no error, and
  the loop counts it like any other insert without error. So handling the same accepted
  message a second time leaves \<open>measurements\<close> exactly as the first time left it, and
  both times the summary gives the same count: the number of readings of a known type
  that the store does not reject for another reason, which is positive as soon as there
  is one such reading.
\<close>

theorem handleMessage_twice_same_count:
  assumes "parseUplink e (Payload msg) = (Inr p, plogs)"
  shows "(\<forall>s. unique_key s \<noteq> None \<and> \<not> rejects s
              \<and> unique_key s \<in> set (map unique_key (measurements db))
            \<longrightarrow> sql_store rejects db s = (db, None))
     \<and> measurements (fst (handleMessage e (sql_store rejects)
           (fst (handleMessage e (sql_store rejects) db msg)) msg))
         = measurements (fst (handleMessage e (sql_store rejects) db msg))
     \<and> (\<exists>logs1 logs2.
           snd (handleMessage e (sql_store rejects) db msg) =
             logs1 @ [ingested (length (filter (\<lambda>s. \<not> rejects s) (inserts p))) (StationEUI p)]
         \<and> snd (handleMessage e (sql_store rejects)
                 (fst (handleMessage e (sql_store rejects) db msg)) msg) =
             logs2 @ [ingested (length (filter (\<lambda>s. \<not> rejects s) (inserts p))) (StationEUI p)])
     \<and> (0 < length (filter (\<lambda>s. \<not> rejects s) (inserts p)) \<longleftrightarrow> (\<exists>s \<in> set (inserts p). \<not> rejects s))"
proof (intro conjI allI impI)
  fix s
  assume a: "unique_key s \<noteq> None \<and> \<not> rejects s \<and> unique_key s \<in> set (map unique_key (measurements db))"
  then have "apply_stmt db s = db" by (cases s) auto
  with a show "sql_store rejects db s = (db, None)" by (simp add: sql_store_def)
next
  let ?step = "\<lambda>db s. if rejects s then db else apply_stmt db s"
  let ?ss = "dimension_upserts p @ inserts p"
  have f: "fst (handleMessage e (sql_store rejects) d msg) = foldl ?step d ?ss" for d
    using handleMessage_fold [of "sql_store rejects" ?step rejects "''rejected''" e msg p plogs d,
      OF sql_store_step assms]
    by auto
  show "measurements (fst (handleMessage e (sql_store rejects)
           (fst (handleMessage e (sql_store rejects) db msg)) msg))
         = measurements (fst (handleMessage e (sql_store rejects) db msg))"
    by (simp only: f fold_twice)
next
  let ?step = "\<lambda>db s. if rejects s then db else apply_stmt db s"
  have l: "\<exists>logs'. snd (handleMessage e (sql_store rejects) d msg) =
      logs' @ [ingested (length (filter (\<lambda>s. \<not> rejects s) (inserts p))) (StationEUI p)]" for d
    using handleMessage_fold [of "sql_store rejects" ?step rejects "''rejected''" e msg p plogs d,
      OF sql_store_step assms]
    by auto
  from l [of db] l [of "fst (handleMessage e (sql_store rejects) db msg)"]
  show "\<exists>logs1 logs2.
           snd (handleMessage e (sql_store rejects) db msg) =
             logs1 @ [ingested (length (filter (\<lambda>s. \<not> rejects s) (inserts p))) (StationEUI p)]
         \<and> snd (handleMessage e (sql_store rejects)
                 (fst (handleMessage e (sql_store rejects) db msg)) msg) =
             logs2 @ [ingested (length (filter (\<lambda>s. \<not> rejects s) (inserts p))) (StationEUI p)]"
    by blast
next
  show "0 < length (filter (\<lambda>s. \<not> rejects s) (inserts p)) \<longleftrightarrow> (\<exists>s \<in> set (inserts p). \<not> rejects s)"
    by (simp add: filter_empty_conv)
qed

theorem handleMessage_twice_same_count_witness:
  "handleMessage (example_env (Some (example_up 100 200 ''ab'' [1, 16])))
     (sql_store (\<lambda>s. False)) empty_tables example_msg =
     (\<lparr>stations = [''AB'' \<mapsto> (''openclimate'', Some ''ws-1'')], gateways = [''gw-1'' \<mapsto> ''AA''],
       measurements = [insertMeasurementSQL \<lparr>instant = 100, location = ''UTC''\<rparr> ''AB'' (Some ''ws-1'')
                         4 1 0 0 1 (Some ''gw-1'') None None]\<rparr>,
      [ingested 1 ''AB''])
   \<and> handleMessage (example_env (Some (example_up 100 200 ''ab'' [1, 16])))
       (sql_store (\<lambda>s. False))
       \<lparr>stations = [''AB'' \<mapsto> (''openclimate'', Some ''ws-1'')], gateways = [''gw-1'' \<mapsto> ''AA''],
        measurements = [insertMeasurementSQL \<lparr>instant = 100, location = ''UTC''\<rparr> ''AB'' (Some ''ws-1'')
                          4 1 0 0 1 (Some ''gw-1'') None None]\<rparr>
       example_msg =
     (\<lparr>stations = [''AB'' \<mapsto> (''openclimate'', Some ''ws-1'')], gateways = [''gw-1'' \<mapsto> ''AA''],
       measurements = [insertMeasurementSQL \<lparr>instant = 100, location = ''UTC''\<rparr> ''AB'' (Some ''ws-1'')
                         4 1 0 0 1 (Some ''gw-1'') None None]\<rparr>,
      [ingested 1 ''AB''])"
proof -
  let ?e = "example_env (Some (example_up 100 200 ''ab'' [1, 16]))"
  let ?p = "\<lparr>When = \<lparr>instant = 100, location = ''UTC''\<rparr>, StationEUI = ''AB'', StationDevID = ''ws-1'',
      AppID = ''openclimate'', Msg = UplinkMessage (example_up 100 200 ''ab'' [1, 16])\<rparr>"
  let ?row = "insertMeasurementSQL \<lparr>instant = 100, location = ''UTC''\<rparr> ''AB'' (Some ''ws-1'')
      4 1 0 0 1 (Some ''gw-1'') None None"
  let ?db1 = "\<lparr>stations = [''AB'' \<mapsto> (''openclimate'', Some ''ws-1'')], gateways = [''gw-1'' \<mapsto> ''AA''],
      measurements = [?row]\<rparr>"
  have P: "parseUplink ?e (Payload example_msg) = (Inr ?p, [])"
    by (simp add: go_eval)
  have 1: "handleMessage ?e (sql_store (\<lambda>s. False)) empty_tables example_msg = (?db1, [ingested 1 ''AB''])"
    by (simp add: go_eval)
  note t = handleMessage_twice_same_count [OF P, of "\<lambda>s. False" empty_tables]
  from t have m: "measurements (fst (handleMessage ?e (sql_store (\<lambda>s. False)) ?db1 example_msg)) = [?row]"
    by (simp add: 1)
  have 2: "handleMessage ?e (sql_store (\<lambda>s. False)) ?db1 example_msg = (?db1, [ingested 1 ''AB''])"
    using m by (simp add: go_eval)
  from 1 2 show ?thesis by blast
qed

end
